theory Spec2Isabelle
  imports Main "HOL-Library.Word"
begin

section \<open>The external entity table (src/sandbox/external-entity-table-inl.h)\<close>

text \<open>
  The table is a template over its \<open>Entry\<close> type and its reservation size. Entry indices,
  segment numbers and freelist lengths are \<open>uint32_t\<close>; addresses are 64-bit. The
  operations are state passing over the table and one of its spaces. A fatal
  out-of-memory abort, a failed \<open>DCHECK\<close> (debug build), a lock taken on a mutex that is
  already held and a dereference of a null \<open>vas_\<close> are results of type \<open>error\<close>.
\<close>

type_synonym u32 = "32 word"
type_synonym Address = "64 word"

datatype error =
  FatalProcessOutOfMemory | DCheckFailed | CheckFailed | Deadlock | NullDereference | IntegerOverflow

datatype PagePermissions = kRead | kReadWrite

definition DCHECK :: "bool \<Rightarrow> (error + 'a) \<Rightarrow> error + 'a" where
  "DCHECK c k = (if c then k else Inl DCheckFailed)"

text \<open>
  Modelled from the spec: the freelist head of a space, declared in
  external-entity-table.h, is an atomic \<open>{next_index, length}\<close> pair; the freelist is
  empty when its length is zero (\<open>Extend\<close> checks emptiness as \<open>freelist_length() == 0\<close>).
\<close>

record FreelistHead =
  next' :: u32
  length' :: u32

definition is_empty :: "FreelistHead \<Rightarrow> bool" where
  "is_empty fl = (length' fl = 0)"

text \<open>
  Modelled from the spec: the virtual-address-space provider is a collaborator that hands
  out pages with permission flags. Its state is its base address and the pages it has
  handed out (by start address); which address it picks is the parameter
  \<open>AllocatePages\<close> of the configuration below (0 is failure).
\<close>

record VAS =
  vas_base :: Address
  vas_pages :: "Address \<rightharpoonup> PagePermissions"

definition kNoHint :: Address where
  "kNoHint = 0"

text \<open>
  What the header and the platform fix and this file only uses: the constants
  \<open>kSegmentSize\<close>, \<open>kEntriesPerSegment\<close> and \<open>kReservationSize\<close>, the two
  operations of the template parameter \<open>Entry\<close> that the table calls, the address the
  table's subspace picks for an allocation, and the answers of the platform's root address
  space to \<open>InitializeTable\<close>.
\<close>

record 'e Cfg =
  kSegmentSize :: nat
  kEntriesPerSegment :: nat
  kReservationSize :: nat
  MakeFreelistEntry :: "'e \<Rightarrow> u32 \<Rightarrow> 'e"
  GetNextFreelistEntryIndex :: "'e \<Rightarrow> u32"
  AllocatePages :: "VAS \<Rightarrow> Address \<Rightarrow> PagePermissions \<Rightarrow> Address"
  allocation_granularity :: nat
  CanAllocateSubspaces :: bool
  AllocateSubspace :: "Address option"
  root_AllocatePages :: Address

record Space =
  freelist_head :: FreelistHead
  segments :: "u32 list"
  mutex :: bool
  owning_table :: "nat option"

record 'e Table =
  this :: nat
  base :: Address
  vas :: "VAS option"
  mem :: "u32 \<Rightarrow> 'e"

subsection \<open>Segments\<close>

definition Segment_At :: "'e Cfg \<Rightarrow> u32 \<Rightarrow> error + u32" where
  "Segment_At cfg offset =
     DCHECK (unat offset mod kSegmentSize cfg = 0)
       (Inr (of_nat (unat offset div kSegmentSize cfg)))"

definition Segment_Containing :: "'e Cfg \<Rightarrow> u32 \<Rightarrow> u32" where
  "Segment_Containing cfg entry_index = of_nat (unat entry_index div kEntriesPerSegment cfg)"

text \<open>
  Modelled from the spec: a segment holds \<open>kEntriesPerSegment\<close> consecutive entries and
  \<open>kSegmentSize\<close> bytes and is numbered by \<open>offset / kSegmentSize\<close>; the accessors
  \<open>first_entry\<close>, \<open>last_entry\<close> and \<open>offset\<close> are declared in
  external-entity-table.h.
\<close>

definition first_entry :: "'e Cfg \<Rightarrow> u32 \<Rightarrow> u32" where
  "first_entry cfg number = of_nat (unat number * kEntriesPerSegment cfg)"

definition last_entry :: "'e Cfg \<Rightarrow> u32 \<Rightarrow> u32" where
  "last_entry cfg number = first_entry cfg number + of_nat (kEntriesPerSegment cfg) - 1"

definition Segment_offset :: "'e Cfg \<Rightarrow> u32 \<Rightarrow> u32" where
  "Segment_offset cfg number = of_nat (unat number * kSegmentSize cfg)"

text \<open>\<open>std::set<Segment>::insert\<close>: ordered, no duplicates.\<close>

definition set_insert :: "u32 \<Rightarrow> u32 list \<Rightarrow> u32 list" where
  "set_insert x xs = (if x \<in> set xs then xs else insort x xs)"

subsection \<open>Spaces\<close>

definition freelist_length :: "Space \<Rightarrow> u32" where
  "freelist_length space = length' (freelist_head space)"

definition num_segments :: "Space \<Rightarrow> error + u32" where
  "num_segments space = DCHECK (mutex space) (Inr (of_nat (length (segments space))))"

text \<open>
  Modelled from the spec: the mutex of a space guards growth. \<open>MutexGuard\<close> locks for a
  scope; the mutex is not recursive, so locking it while it is held never returns.
\<close>

definition Contains :: "'e Cfg \<Rightarrow> Space \<Rightarrow> u32 \<Rightarrow> error + bool" where
  "Contains cfg space index =
     (if mutex space then Inl Deadlock
      else Inr (Segment_Containing cfg index \<in> set (segments space)))"

definition BelongsTo :: "Space \<Rightarrow> 'e Table \<Rightarrow> bool" where
  "BelongsTo space table = (owning_table space = Some (this table))"

subsection \<open>The table\<close>

definition is_initialized :: "'e Table \<Rightarrow> error + bool" where
  "is_initialized t =
     (if base t = 0 then Inr False
      else case vas t of
             None \<Rightarrow> Inl NullDereference
           | Some v \<Rightarrow> DCHECK (base t = vas_base v) (Inr True))"

definition DCHECK_initialized :: "'e Table \<Rightarrow> bool \<Rightarrow> (error + 'a) \<Rightarrow> error + 'a" where
  "DCHECK_initialized t expected k =
     (case is_initialized t of Inl e \<Rightarrow> Inl e | Inr b \<Rightarrow> DCHECK (b = expected) k)"

definition InitializeTable :: "'e Cfg \<Rightarrow> 'e Table \<Rightarrow> error + 'e Table" where
  "InitializeTable cfg t =
     DCHECK_initialized t False
      (DCHECK (vas t = None)
        (DCHECK (kReservationSize cfg mod allocation_granularity cfg = 0)
          (let v = (if CanAllocateSubspaces cfg
                    then (case AllocateSubspace cfg of
                            None \<Rightarrow> None
                          | Some b \<Rightarrow> Some \<lparr>vas_base = b, vas_pages = Map.empty\<rparr>)
                    else (let reservation_base = root_AllocatePages cfg
                          in if reservation_base \<noteq> 0
                             then Some \<lparr>vas_base = reservation_base, vas_pages = Map.empty\<rparr>
                             else None))
           in case v of
                None \<Rightarrow> Inl FatalProcessOutOfMemory
              | Some v \<Rightarrow>
                  (let first_segment = AllocatePages cfg v (vas_base v) kRead
                   in if first_segment \<noteq> vas_base v then Inl FatalProcessOutOfMemory
                      else Inr (t\<lparr>base := vas_base v,
                                  vas := Some (v\<lparr>vas_pages := (vas_pages v)(first_segment \<mapsto> kRead)\<rparr>)\<rparr>)))))"

definition TearDownTable :: "'e Table \<Rightarrow> error + 'e Table" where
  "TearDownTable t =
     DCHECK_initialized t True
       (case vas t of
          None \<Rightarrow> Inl NullDereference
        | Some v \<Rightarrow> Inr (t\<lparr>base := 0, vas := None\<rparr>))"

definition InitializeSpace :: "'e Table \<Rightarrow> Space \<Rightarrow> error + Space" where
  "InitializeSpace t space =
     DCHECK (owning_table space = None) (Inr (space\<lparr>owning_table := Some (this t)\<rparr>))"

definition AllocateTableSegment :: "'e Cfg \<Rightarrow> 'e Table \<Rightarrow> error + (u32 \<times> 'e Table)" where
  "AllocateTableSegment cfg t =
     (case vas t of
        None \<Rightarrow> Inl NullDereference
      | Some v \<Rightarrow>
          (let start = AllocatePages cfg v kNoHint kReadWrite
           in if start = 0 then Inl FatalProcessOutOfMemory
              else (let offset = (ucast (start - vas_base v) :: u32)
                    in case Segment_At cfg offset of
                         Inl e \<Rightarrow> Inl e
                       | Inr segment \<Rightarrow>
                           Inr (segment,
                                t\<lparr>vas := Some (v\<lparr>vas_pages := (vas_pages v)(start \<mapsto> kReadWrite)\<rparr>)\<rparr>))))"

definition FreeTableSegment :: "'e Cfg \<Rightarrow> 'e Table \<Rightarrow> u32 \<Rightarrow> error + 'e Table" where
  "FreeTableSegment cfg t segment =
     DCHECK (segment \<noteq> 0)
       (case vas t of
          None \<Rightarrow> Inl NullDereference
        | Some v \<Rightarrow>
            (let segment_start = vas_base v + ucast (Segment_offset cfg segment)
             in Inr (t\<lparr>vas := Some (v\<lparr>vas_pages := (vas_pages v)(segment_start := None)\<rparr>)\<rparr>)))"

fun FreeTableSegments :: "'e Cfg \<Rightarrow> 'e Table \<Rightarrow> u32 list \<Rightarrow> error + 'e Table" where
  "FreeTableSegments cfg t [] = Inr t"
| "FreeTableSegments cfg t (segment # rest) =
     (case FreeTableSegment cfg t segment of
        Inl e \<Rightarrow> Inl e
      | Inr t' \<Rightarrow> FreeTableSegments cfg t' rest)"

definition TearDownSpace :: "'e Cfg \<Rightarrow> 'e Table \<Rightarrow> Space \<Rightarrow> error + ('e Table \<times> Space)" where
  "TearDownSpace cfg t space =
     DCHECK_initialized t True
       (DCHECK (BelongsTo space t)
          (case FreeTableSegments cfg t (segments space) of
             Inl e \<Rightarrow> Inl e
           | Inr t' \<Rightarrow> Inr (t', space\<lparr>segments := []\<rparr>)))"

subsection \<open>Allocation\<close>

text \<open>
  \<open>compare_exchange_strong\<close> on the freelist head of a space: the head is replaced only
  when it still equals the value the caller loaded.
\<close>

definition compare_exchange_strong :: "Space \<Rightarrow> FreelistHead \<Rightarrow> FreelistHead \<Rightarrow> bool \<times> Space" where
  "compare_exchange_strong space expected desired =
     (if freelist_head space = expected then (True, space\<lparr>freelist_head := desired\<rparr>)
      else (False, space))"

definition TryAllocateEntryFromFreelist ::
  "'e Cfg \<Rightarrow> 'e Table \<Rightarrow> Space \<Rightarrow> FreelistHead \<Rightarrow> error + (bool \<times> Space)" where
  "TryAllocateEntryFromFreelist cfg t space freelist =
     DCHECK (\<not> is_empty freelist)
       (case Contains cfg space (next' freelist) of
          Inl e \<Rightarrow> Inl e
        | Inr c \<Rightarrow>
            DCHECK c
              (let freelist_entry = mem t (next' freelist);
                   next_freelist_entry = GetNextFreelistEntryIndex cfg freelist_entry;
                   new_freelist = \<lparr>next' = next_freelist_entry, length' = length' freelist - 1\<rparr>;
                   (success, space') = compare_exchange_strong space freelist new_freelist
               in if success
                  then DCHECK (1 < length' freelist \<longrightarrow> \<not> is_empty new_freelist)
                         (DCHECK (length' freelist = 1 \<longrightarrow> is_empty new_freelist)
                            (Inr (success, space')))
                  else Inr (success, space')))"

lemma unat_plus_one_less:
  fixes i lst :: "'a::len word"
  assumes "i < lst"
  shows "unat (i + 1) = Suc (unat i)"
proof -
  from assms have "unat i < unat lst"
    by (simp add: word_less_nat_alt)
  moreover have "unat lst < 2 ^ LENGTH('a)"
    by (rule unsigned_less)
  ultimately have "unat i + 1 < 2 ^ LENGTH('a)"
    by linarith
  then show ?thesis
    by (simp add: unat_word_ariths)
qed

text \<open>The loop of \<open>Extend\<close>: \<open>for (uint32_t i = first; i < last; i++)\<close>.\<close>

function Extend_loop :: "'e Cfg \<Rightarrow> u32 \<Rightarrow> u32 \<Rightarrow> (u32 \<Rightarrow> 'e) \<Rightarrow> (u32 \<Rightarrow> 'e)" where
  "Extend_loop cfg i lst m =
     (if i < lst
      then (let next_free_entry = i + 1
            in Extend_loop cfg (i + 1) lst (m(i := MakeFreelistEntry cfg (m i) next_free_entry)))
      else m)"
  by pat_completeness auto
termination
proof (relation "measure (\<lambda>(cfg, i, lst, m). unat lst - unat i)")
  show "wf (measure (\<lambda>(cfg, i, lst, m). unat lst - unat i))"
    by simp
next
  fix cfg :: "'e Cfg" and i lst :: u32 and m :: "u32 \<Rightarrow> 'e" and x :: u32
  assume lt: "i < lst" and x: "x = i + 1"
  from lt have "unat (i + 1) = unat i + 1"
    by (simp add: unat_plus_one_less)
  moreover from lt have "unat i < unat lst"
    by (simp add: word_less_nat_alt)
  ultimately show "((cfg, i + 1, lst, m(i := MakeFreelistEntry cfg (m i) x)), (cfg, i, lst, m))
      \<in> measure (\<lambda>(cfg, i, lst, m). unat lst - unat i)"
    by simp
qed

declare Extend_loop.simps [simp del]

definition Extend :: "'e Cfg \<Rightarrow> 'e Table \<Rightarrow> Space \<Rightarrow> error + (FreelistHead \<times> 'e Table \<times> Space)" where
  "Extend cfg t space =
     DCHECK (freelist_length space = 0)
       (DCHECK (mutex space)
          (case AllocateTableSegment cfg t of
             Inl e \<Rightarrow> Inl e
           | Inr (segment, t1) \<Rightarrow>
               (let space1 = space\<lparr>segments := set_insert segment (segments space)\<rparr>
                in DCHECK (segment \<noteq> 0)
                     (let first = first_entry cfg segment;
                          lst = last_entry cfg segment;
                          m1 = Extend_loop cfg first lst (mem t1);
                          m2 = m1(lst := MakeFreelistEntry cfg (m1 lst) 0);
                          new_freelist_head = \<lparr>next' = first, length' = lst - first + 1\<rparr>;
                          space2 = space1\<lparr>freelist_head := new_freelist_head\<rparr>
                      in Inr (new_freelist_head, t1\<lparr>mem := m2\<rparr>, space2)))))"

text \<open>
  One turn of the loop of \<open>AllocateEntry\<close>, in two parts. First the acquire load and,
  when the freelist is empty, the slow path: take the lock, load again, and extend the
  space when the freelist is still empty; the guard releases the mutex at the end of its
  block. Then the compare-and-swap against the head that was loaded.
\<close>

definition AllocateEntry_load ::
  "'e Cfg \<Rightarrow> 'e Table \<Rightarrow> Space \<Rightarrow> error + (FreelistHead \<times> 'e Table \<times> Space)" where
  "AllocateEntry_load cfg t space =
     (let freelist = freelist_head space
      in if is_empty freelist
         then (if mutex space then Inl Deadlock
               else (let space1 = space\<lparr>mutex := True\<rparr>;
                         freelist1 = freelist_head space1
                     in if is_empty freelist1
                        then (case Extend cfg t space1 of
                                Inl e \<Rightarrow> Inl e
                              | Inr (freelist2, t2, space2) \<Rightarrow>
                                  DCHECK (unat (length' freelist2) = kEntriesPerSegment cfg)
                                    (Inr (freelist2, t2, space2\<lparr>mutex := False\<rparr>)))
                        else Inr (freelist1, t, space1\<lparr>mutex := False\<rparr>)))
         else Inr (freelist, t, space))"

definition AllocateEntry_body ::
  "'e Cfg \<Rightarrow> 'e Table \<Rightarrow> Space \<Rightarrow> error + (bool \<times> FreelistHead \<times> 'e Table \<times> Space)" where
  "AllocateEntry_body cfg t space =
     (case AllocateEntry_load cfg t space of
        Inl e \<Rightarrow> Inl e
      | Inr (freelist, t', space') \<Rightarrow>
          (case TryAllocateEntryFromFreelist cfg t' space' freelist of
             Inl e \<Rightarrow> Inl e
           | Inr (success, space'') \<Rightarrow> Inr (success, freelist, t', space'')))"

lemma DCHECK_Inr: "DCHECK c k = Inr r \<longleftrightarrow> c \<and> k = Inr r"
  by (simp add: DCHECK_def)

lemma Extend_head:
  assumes "Extend cfg t space = Inr (fl, t', space')"
  shows "freelist_head space' = fl"
  using assms
  by (auto simp: Extend_def DCHECK_Inr Let_def split: sum.splits prod.splits)

lemma AllocateEntry_load_head:
  assumes "AllocateEntry_load cfg t space = Inr (fl, t', space')"
  shows "freelist_head space' = fl"
  using assms
  by (auto simp: AllocateEntry_load_def Let_def DCHECK_Inr
      split: sum.splits prod.splits if_splits dest: Extend_head)

lemma TryAllocate_success:
  assumes "TryAllocateEntryFromFreelist cfg t space fl = Inr (b, space')"
    and "freelist_head space = fl"
  shows "b"
  using assms
  by (auto simp: TryAllocateEntryFromFreelist_def DCHECK_Inr Let_def compare_exchange_strong_def
      split: sum.splits prod.splits if_splits)

lemma AllocateEntry_body_success:
  assumes "AllocateEntry_body cfg t space = Inr (b, fl, t', space')"
  shows "b"
  using assms
  by (auto simp: AllocateEntry_body_def split: sum.splits prod.splits
      dest!: AllocateEntry_load_head dest: TryAllocate_success)

text \<open>
  \<open>AllocateEntry\<close>: \<open>while (!success)\<close> around the body. Between the load and the
  compare-and-swap of one turn nothing else runs, so the loop is left after one turn; the
  termination proof says so.
\<close>

function AllocateEntry_loop ::
  "'e Cfg \<Rightarrow> 'e Table \<Rightarrow> Space \<Rightarrow> error + (FreelistHead \<times> 'e Table \<times> Space)" where
  "AllocateEntry_loop cfg t space =
     (case AllocateEntry_body cfg t space of
        Inl e \<Rightarrow> Inl e
      | Inr (success, freelist, t', space') \<Rightarrow>
          if success then Inr (freelist, t', space') else AllocateEntry_loop cfg t' space')"
  by pat_completeness auto
termination
proof (relation "{}")
  show "wf {}"
    by simp
next
  fix cfg :: "'e Cfg" and t :: "'e Table" and space b and x
    and success :: bool and y fl z t' space'
  assume "AllocateEntry_body cfg t space = Inr b" "(success, x) = b" "(fl, y) = x"
    "(t', space') = y" "\<not> success"
  then have "AllocateEntry_body cfg t space = Inr (False, fl, t', space')"
    by auto
  then have False
    by (auto dest: AllocateEntry_body_success)
  then show "((cfg, t', space'), (cfg, t, space)) \<in> {}"
    by simp
qed

declare AllocateEntry_loop.simps [simp del]

definition AllocateEntry :: "'e Cfg \<Rightarrow> 'e Table \<Rightarrow> Space \<Rightarrow> error + (u32 \<times> 'e Table \<times> Space)" where
  "AllocateEntry cfg t space =
     DCHECK_initialized t True
       (DCHECK (BelongsTo space t)
          (case AllocateEntry_loop cfg t space of
             Inl e \<Rightarrow> Inl e
           | Inr (freelist, t', space') \<Rightarrow>
               (let allocated_entry = next' freelist
                in case Contains cfg space' allocated_entry of
                     Inl e \<Rightarrow> Inl e
                   | Inr c \<Rightarrow>
                       DCHECK c
                         (DCHECK (allocated_entry \<noteq> 0)
                            (Inr (allocated_entry, t', space'))))))"

text \<open>
  One turn of the loop of \<open>AllocateEntryBelow\<close>; \<open>None\<close> is the early \<open>return 0\<close>.
\<close>

definition AllocateEntryBelow_body ::
  "'e Cfg \<Rightarrow> 'e Table \<Rightarrow> Space \<Rightarrow> u32 \<Rightarrow> error + (bool \<times> FreelistHead \<times> Space) option" where
  "AllocateEntryBelow_body cfg t space threshold_index =
     (let freelist = freelist_head space
      in if is_empty freelist \<or> threshold_index \<le> next' freelist then Inr None
         else (case TryAllocateEntryFromFreelist cfg t space freelist of
                 Inl e \<Rightarrow> Inl e
               | Inr (success, space') \<Rightarrow> Inr (Some (success, freelist, space'))))"

lemma AllocateEntryBelow_body_success:
  assumes "AllocateEntryBelow_body cfg t space T = Inr (Some (b, fl, space'))"
  shows "b"
  using assms
  by (auto simp: AllocateEntryBelow_body_def Let_def split: sum.splits if_splits
      dest: TryAllocate_success)

function AllocateEntryBelow_loop ::
  "'e Cfg \<Rightarrow> 'e Table \<Rightarrow> Space \<Rightarrow> u32 \<Rightarrow> error + (FreelistHead \<times> Space) option" where
  "AllocateEntryBelow_loop cfg t space threshold_index =
     (case AllocateEntryBelow_body cfg t space threshold_index of
        Inl e \<Rightarrow> Inl e
      | Inr None \<Rightarrow> Inr None
      | Inr (Some (success, freelist, space')) \<Rightarrow>
          if success then Inr (Some (freelist, space'))
          else AllocateEntryBelow_loop cfg t space' threshold_index)"
  by pat_completeness auto
termination
proof (relation "{}")
  show "wf {}"
    by simp
next
  fix cfg :: "'e Cfg" and t :: "'e Table" and space threshold_index b x2
    and success :: bool and y fl space'
  assume "AllocateEntryBelow_body cfg t space threshold_index = Inr b" "b = Some x2"
    "(success, y) = x2" "(fl, space') = y" "\<not> success"
  then have "AllocateEntryBelow_body cfg t space threshold_index = Inr (Some (False, fl, space'))"
    by auto
  then have False
    by (auto dest: AllocateEntryBelow_body_success)
  then show "((cfg, t, space', threshold_index), (cfg, t, space, threshold_index)) \<in> {}"
    by simp
qed

declare AllocateEntryBelow_loop.simps [simp del]

definition AllocateEntryBelow :: "'e Cfg \<Rightarrow> 'e Table \<Rightarrow> Space \<Rightarrow> u32 \<Rightarrow> error + (u32 \<times> Space)" where
  "AllocateEntryBelow cfg t space threshold_index =
     DCHECK_initialized t True
       (case AllocateEntryBelow_loop cfg t space threshold_index of
          Inl e \<Rightarrow> Inl e
        | Inr None \<Rightarrow> Inr (0, space)
        | Inr (Some (freelist, space')) \<Rightarrow>
            (let allocated_entry = next' freelist
             in case Contains cfg space' allocated_entry of
                  Inl e \<Rightarrow> Inl e
                | Inr c \<Rightarrow>
                    DCHECK c
                      (DCHECK (allocated_entry \<noteq> 0)
                         (DCHECK (allocated_entry < threshold_index)
                            (Inr (allocated_entry, space'))))))"

subsection \<open>Well-formed configurations and the invariant of a table with one of its spaces\<close>

text \<open>
  The contract of the collaborators. The constants are positive and the reservation holds
  at most \<open>2^32\<close> entries, so that an entry index fits \<open>uint32_t\<close>. An entry made a
  freelist entry gives back the index it was given. A page the subspace hands out is not
  one it has handed out already, and lies in the reservation at a multiple of the segment
  size.
\<close>

definition page_ok :: "'e Cfg \<Rightarrow> VAS \<Rightarrow> Address \<Rightarrow> bool" where
  "page_ok cfg v a \<longleftrightarrow>
     a \<notin> dom (vas_pages v) \<and>
     unat (a - vas_base v) mod kSegmentSize cfg = 0 \<and>
     unat (a - vas_base v) + kSegmentSize cfg \<le> kReservationSize cfg"

definition cfg_ok :: "'e Cfg \<Rightarrow> bool" where
  "cfg_ok cfg \<longleftrightarrow>
     0 < kSegmentSize cfg \<and> 0 < kEntriesPerSegment cfg \<and>
     kReservationSize cfg \<le> 2 ^ 32 \<and>
     (kReservationSize cfg div kSegmentSize cfg) * kEntriesPerSegment cfg \<le> 2 ^ 32 \<and>
     (\<forall>e n. GetNextFreelistEntryIndex cfg (MakeFreelistEntry cfg e n) = n) \<and>
     (\<forall>v hint perm. AllocatePages cfg v hint perm \<noteq> 0 \<longrightarrow>
        page_ok cfg v (AllocatePages cfg v hint perm))"

text \<open>The entries of a freelist: \<open>n\<close> entries from \<open>i\<close> on, and where their links end.\<close>

fun freelist_entries :: "'e Cfg \<Rightarrow> (u32 \<Rightarrow> 'e) \<Rightarrow> u32 \<Rightarrow> nat \<Rightarrow> u32 list" where
  "freelist_entries cfg m i 0 = []"
| "freelist_entries cfg m i (Suc n) =
     i # freelist_entries cfg m (GetNextFreelistEntryIndex cfg (m i)) n"

fun freelist_end :: "'e Cfg \<Rightarrow> (u32 \<Rightarrow> 'e) \<Rightarrow> u32 \<Rightarrow> nat \<Rightarrow> u32" where
  "freelist_end cfg m i 0 = i"
| "freelist_end cfg m i (Suc n) = freelist_end cfg m (GetNextFreelistEntryIndex cfg (m i)) n"

definition free_entries :: "'e Cfg \<Rightarrow> 'e Table \<Rightarrow> Space \<Rightarrow> u32 list" where
  "free_entries cfg t space =
     freelist_entries cfg (mem t) (next' (freelist_head space)) (unat (length' (freelist_head space)))"

definition freelist_ok :: "'e Cfg \<Rightarrow> 'e Table \<Rightarrow> Space \<Rightarrow> bool" where
  "freelist_ok cfg t space \<longleftrightarrow>
     distinct (free_entries cfg t space) \<and>
     (\<forall>i \<in> set (free_entries cfg t space).
        i \<noteq> 0 \<and> Segment_Containing cfg i \<in> set (segments space)) \<and>
     freelist_end cfg (mem t) (next' (freelist_head space)) (unat (length' (freelist_head space))) = 0"

definition segment_start :: "'e Cfg \<Rightarrow> VAS \<Rightarrow> u32 \<Rightarrow> Address" where
  "segment_start cfg v segment = vas_base v + ucast (Segment_offset cfg segment)"

text \<open>
  What holds of a table and one of its spaces between operations: the table is
  initialized, with segment 0 committed read-only; the space belongs to the table; its
  segments are pages of the subspace other than segment 0; and its freelist is a chain of
  distinct nonzero entries of its segments that ends in 0. While no operation is running
  the mutex is free.
\<close>

definition space_ok :: "'e Cfg \<Rightarrow> 'e Table \<Rightarrow> Space \<Rightarrow> bool" where
  "space_ok cfg t space \<longleftrightarrow>
     cfg_ok cfg \<and>
     (case vas t of
        None \<Rightarrow> False
      | Some v \<Rightarrow>
          base t = vas_base v \<and> base t \<noteq> 0 \<and> vas_pages v (vas_base v) = Some kRead \<and>
          (\<forall>n \<in> set (segments space). segment_start cfg v n \<in> dom (vas_pages v))) \<and>
     BelongsTo space t \<and>
     (\<forall>n \<in> set (segments space).
        n \<noteq> 0 \<and> unat n < kReservationSize cfg div kSegmentSize cfg) \<and>
     freelist_ok cfg t space"

definition table_inv :: "'e Cfg \<Rightarrow> 'e Table \<Rightarrow> Space \<Rightarrow> bool" where
  "table_inv cfg t space \<longleftrightarrow> space_ok cfg t space \<and> \<not> mutex space"

text \<open>
  The entries a space can still hand out: those on its freelist, and those of segments it
  does not own yet.
\<close>

definition avail :: "'e Cfg \<Rightarrow> 'e Table \<Rightarrow> Space \<Rightarrow> u32 set" where
  "avail cfg t space =
     set (free_entries cfg t space) \<union> {j. Segment_Containing cfg j \<notin> set (segments space)}"

text \<open>A sequence of \<open>n\<close> calls of \<open>AllocateEntry\<close> on one space, with the indices returned.\<close>

fun AllocateEntries ::
  "'e Cfg \<Rightarrow> nat \<Rightarrow> 'e Table \<Rightarrow> Space \<Rightarrow> error + (u32 list \<times> 'e Table \<times> Space)" where
  "AllocateEntries cfg 0 t space = Inr ([], t, space)"
| "AllocateEntries cfg (Suc n) t space =
     (case AllocateEntry cfg t space of
        Inl e \<Rightarrow> Inl e
      | Inr (i, t', space') \<Rightarrow>
          (case AllocateEntries cfg n t' space' of
             Inl e \<Rightarrow> Inl e
           | Inr (rest, t'', space'') \<Rightarrow> Inr (i # rest, t'', space'')))"

subsection \<open>A small table for the examples\<close>

text \<open>
  Segments of 32 bytes and 4 entries in a reservation of 128 bytes at address 4096; an
  entry is the index it stores; the subspace hands out the hinted page when it is free
  and the lowest free page otherwise.
\<close>

definition first_fit :: "nat \<Rightarrow> nat \<Rightarrow> VAS \<Rightarrow> Address \<Rightarrow> PagePermissions \<Rightarrow> Address" where
  "first_fit S R v hint perm =
     (if hint \<noteq> 0 \<and> vas_pages v hint = None \<and> unat (hint - vas_base v) mod S = 0 \<and>
         unat (hint - vas_base v) + S \<le> R
      then hint
      else case filter (\<lambda>a. a \<noteq> 0 \<and> vas_pages v a = None)
                  (map (\<lambda>j. vas_base v + of_nat (j * S)) [0..<R div S]) of
             [] \<Rightarrow> 0
           | a # _ \<Rightarrow> a)"

definition example_cfg :: "u32 Cfg" where
  "example_cfg =
     \<lparr>kSegmentSize = 32, kEntriesPerSegment = 4, kReservationSize = 128,
      MakeFreelistEntry = (\<lambda>e n. n), GetNextFreelistEntryIndex = (\<lambda>e. e),
      AllocatePages = first_fit 32 128, allocation_granularity = 16,
      CanAllocateSubspaces = True, AllocateSubspace = Some 4096, root_AllocatePages = 0\<rparr>"

definition empty_Table :: "u32 Table" where
  "empty_Table = \<lparr>this = 1, base = 0, vas = None, mem = (\<lambda>_. 0)\<rparr>"

definition empty_Space :: Space where
  "empty_Space = \<lparr>freelist_head = \<lparr>next' = 0, length' = 0\<rparr>, segments = [], mutex = False,
     owning_table = None\<rparr>"

definition example_table :: "u32 Table" where
  "example_table = \<lparr>this = 1, base = 4096,
     vas = Some \<lparr>vas_base = 4096, vas_pages = [4096 \<mapsto> kRead]\<rparr>, mem = (\<lambda>_. 0)\<rparr>"

definition example_space :: Space where
  "example_space = empty_Space\<lparr>owning_table := Some 1\<rparr>"

text \<open>
  A space whose freelist is 6, 5: entry 5 lies below entry 6 but behind it.
\<close>

definition stuck_table :: "u32 Table" where
  "stuck_table = \<lparr>this = 1, base = 4096,
     vas = Some \<lparr>vas_base = 4096, vas_pages = [4096 \<mapsto> kRead, 4128 \<mapsto> kReadWrite]\<rparr>,
     mem = (\<lambda>_. 0)(6 := 5, 5 := 0)\<rparr>"

definition stuck_space :: Space where
  "stuck_space = \<lparr>freelist_head = \<lparr>next' = 6, length' = 2\<rparr>, segments = [1], mutex = False,
     owning_table = Some 1\<rparr>"

section \<open>The marking visitor (src/heap/marking-visitor-inl.h)\<close>

text \<open>
  A heap object is its address and a slot is the address of a tagged field. What the
  visitor does to its collaborators (worklists, the slot recorder of the concrete
  visitor, the reference summarizer, the heap's retainer table) and the slots it loads
  are recorded in call order; the marking state, which the visitor also reads, is state.
\<close>

type_synonym HeapObject = nat

type_synonym Slot = nat

type_synonym MapObject = nat

datatype Object = Smi int | StrongRef HeapObject | WeakRef HeapObject | ClearedWeak

fun IsHeapObject :: "Object \<Rightarrow> bool" where
  "IsHeapObject (StrongRef h) = True"
| "IsHeapObject other = False"

datatype TraceRetainingPathMode = kEnabled | kDisabled

datatype call =
    Load Slot
  | SynchronizePageAccess HeapObject
  | AddStrongReferenceForReferenceSummarizer HeapObject HeapObject
  | AddWeakReferenceForReferenceSummarizer HeapObject HeapObject
  | Push_marking_worklist HeapObject
  | AddRetainer HeapObject HeapObject
  | RecordSlot HeapObject Slot HeapObject
  | Push_weak_references HeapObject Slot
  | Push_ephemeron_hash_tables HeapObject
  | Push_discovered_ephemerons HeapObject HeapObject
  | Push_js_weak_refs HeapObject

record 'ms Visitor =
  marking_state :: 'ms
  calls :: "call list"

definition emit :: "call \<Rightarrow> 'ms Visitor \<Rightarrow> 'ms Visitor" where
  "emit c v = v\<lparr>calls := calls v @ [c]\<rparr>"

record 'ms Heap =
  TryMark :: "'ms \<Rightarrow> HeapObject \<Rightarrow> bool \<times> 'ms"
  IsMarked :: "'ms \<Rightarrow> HeapObject \<Rightarrow> bool"
  IsUnmarked :: "'ms \<Rightarrow> HeapObject \<Rightarrow> bool"
  Relaxed_Load :: "Slot \<Rightarrow> Object"
  ReadOnlyHeap_Contains :: "HeapObject \<Rightarrow> bool"
  heap_Contains :: "HeapObject \<Rightarrow> bool"
  InReadOnlySpace :: "HeapObject \<Rightarrow> bool"
  InWritableSharedSpace :: "HeapObject \<Rightarrow> bool"
  ShouldMarkObject :: "HeapObject \<Rightarrow> bool"
  retaining_path_mode :: TraceRetainingPathMode
  kTaggedSizeLog2 :: nat
  map_word :: "HeapObject \<Rightarrow> MapObject"
  kMaxRegularHeapObjectSize :: int
  FixedArray_SizeOf :: "MapObject \<Rightarrow> HeapObject \<Rightarrow> int"
  FixedArray_kStartOffset :: int
  Capacity :: "HeapObject \<Rightarrow> nat"
  KeyAt :: "HeapObject \<Rightarrow> nat \<Rightarrow> HeapObject"
  ValueAt :: "HeapObject \<Rightarrow> nat \<Rightarrow> Object"
  EntryToIndex :: "nat \<Rightarrow> int"
  EntryToValueIndex :: "nat \<Rightarrow> int"
  OffsetOfElementAt :: "int \<Rightarrow> int"
  SizeFromMap :: "HeapObject \<Rightarrow> MapObject \<Rightarrow> int"
  target :: "HeapObject \<Rightarrow> Object"
  JSWeakRef_kTargetOffset :: int
  VisitJSObjectSubclass :: "'ms Visitor \<Rightarrow> MapObject \<Rightarrow> HeapObject \<Rightarrow> error + (int \<times> 'ms Visitor)"

definition kTaggedSize :: "'ms Heap \<Rightarrow> nat" where
  "kTaggedSize heap = 2 ^ kTaggedSizeLog2 heap"

lemma kTaggedSize_pos: "0 < kTaggedSize heap"
  by (simp add: kTaggedSize_def)

definition RawField :: "HeapObject \<Rightarrow> int \<Rightarrow> Slot" where
  "RawField object byte_offset = nat (int object + byte_offset)"

definition map_slot :: "HeapObject \<Rightarrow> Slot" where
  "map_slot object = RawField object 0"

definition RawFieldOfElementAt :: "'ms Heap \<Rightarrow> HeapObject \<Rightarrow> int \<Rightarrow> Slot" where
  "RawFieldOfElementAt heap object index = RawField object (OffsetOfElementAt heap index)"

subsection \<open>Visiting strong and weak pointers\<close>

definition MarkObject :: "'ms Heap \<Rightarrow> 'ms Visitor \<Rightarrow> HeapObject \<Rightarrow> HeapObject \<Rightarrow> error + 'ms Visitor" where
  "MarkObject heap v host object =
     DCHECK (ReadOnlyHeap_Contains heap object \<or> heap_Contains heap object)
       (let v1 = emit (SynchronizePageAccess object) v;
            v2 = emit (AddStrongReferenceForReferenceSummarizer host object) v1;
            (first_to_mark, ms) = TryMark heap (marking_state v2) object;
            v3 = v2\<lparr>marking_state := ms\<rparr>
        in if first_to_mark
           then (let v4 = emit (Push_marking_worklist object) v3
                 in if retaining_path_mode heap = kEnabled
                    then Inr (emit (AddRetainer host object) v4)
                    else Inr v4)
           else Inr v3)"

definition ProcessStrongHeapObject ::
  "'ms Heap \<Rightarrow> 'ms Visitor \<Rightarrow> HeapObject \<Rightarrow> Slot \<Rightarrow> HeapObject \<Rightarrow> error + 'ms Visitor" where
  "ProcessStrongHeapObject heap v host slot heap_object =
     (let v1 = emit (SynchronizePageAccess heap_object) v
      in if \<not> ShouldMarkObject heap heap_object then Inr v1
         else (case MarkObject heap v1 host heap_object of
                 Inl e \<Rightarrow> Inl e
               | Inr v2 \<Rightarrow> Inr (emit (RecordSlot host slot heap_object) v2)))"

definition ProcessWeakHeapObject ::
  "'ms Heap \<Rightarrow> 'ms Visitor \<Rightarrow> HeapObject \<Rightarrow> Slot \<Rightarrow> HeapObject \<Rightarrow> error + 'ms Visitor" where
  "ProcessWeakHeapObject heap v host slot heap_object =
     (let v1 = emit (SynchronizePageAccess heap_object) v
      in if \<not> ShouldMarkObject heap heap_object then Inr v1
         else if IsMarked heap (marking_state v1) heap_object
              then Inr (emit (RecordSlot host slot heap_object) v1)
              else Inr (emit (AddWeakReferenceForReferenceSummarizer host heap_object)
                          (emit (Push_weak_references host slot) v1)))"

text \<open>
  The body of the loop of \<open>VisitPointersImpl\<close> for one slot, and the loop
  \<open>for (TSlot slot = start; slot < end; ++slot)\<close>; \<open>++slot\<close> advances by one tagged field.
\<close>

definition VisitPointersImpl_slot ::
  "'ms Heap \<Rightarrow> bool \<Rightarrow> 'ms Visitor \<Rightarrow> HeapObject \<Rightarrow> Slot \<Rightarrow> error + 'ms Visitor" where
  "VisitPointersImpl_slot heap kCanBeWeak v host slot =
     (let v1 = emit (Load slot) v
      in case Relaxed_Load heap slot of
           StrongRef heap_object \<Rightarrow> ProcessStrongHeapObject heap v1 host slot heap_object
         | WeakRef heap_object \<Rightarrow>
             if kCanBeWeak then ProcessWeakHeapObject heap v1 host slot heap_object else Inr v1
         | other \<Rightarrow> Inr v1)"

function VisitPointersImpl ::
  "'ms Heap \<Rightarrow> bool \<Rightarrow> 'ms Visitor \<Rightarrow> HeapObject \<Rightarrow> Slot \<Rightarrow> Slot \<Rightarrow> error + 'ms Visitor" where
  "VisitPointersImpl heap kCanBeWeak v host slot end_slot =
     (if slot < end_slot
      then (case VisitPointersImpl_slot heap kCanBeWeak v host slot of
              Inl e \<Rightarrow> Inl e
            | Inr v' \<Rightarrow> VisitPointersImpl heap kCanBeWeak v' host (slot + kTaggedSize heap) end_slot)
      else Inr v)"
  by pat_completeness auto

termination
proof (relation "measure (\<lambda>(heap, w, v, host, slot, end_slot). end_slot - slot)", goal_cases)
  case 1
  show ?case by simp
next
  case (2 heap kCanBeWeak v host slot end_slot v')
  have "0 < kTaggedSize heap"
    by (rule kTaggedSize_pos)
  with 2(1) show ?case
    by simp
qed

declare VisitPointersImpl.simps [simp del]

text \<open>
  Declared in marking-visitor.h: \<open>VisitPointers\<close> and \<open>VisitPointer\<close> on full object slots
  forward to \<open>VisitPointersImpl\<close>; \<open>VisitMapPointer\<close> processes the map of the host as a
  strong reference held in the host's map slot.
\<close>

definition VisitPointers ::
  "'ms Heap \<Rightarrow> 'ms Visitor \<Rightarrow> HeapObject \<Rightarrow> Slot \<Rightarrow> Slot \<Rightarrow> error + 'ms Visitor" where
  "VisitPointers heap v host start end_slot = VisitPointersImpl heap False v host start end_slot"

definition VisitPointer :: "'ms Heap \<Rightarrow> 'ms Visitor \<Rightarrow> HeapObject \<Rightarrow> Slot \<Rightarrow> error + 'ms Visitor" where
  "VisitPointer heap v host p = VisitPointersImpl heap False v host p (p + kTaggedSize heap)"

definition VisitMapPointer :: "'ms Heap \<Rightarrow> 'ms Visitor \<Rightarrow> HeapObject \<Rightarrow> error + 'ms Visitor" where
  "VisitMapPointer heap v host =
     ProcessStrongHeapObject heap v host (map_slot host) (map_word heap host)"

subsection \<open>Aging of shared function infos\<close>

type_synonym u16 = "16 word"

record Flags =
  flush_code_based_on_time :: bool
  flush_code_based_on_tab_visibility :: bool
  bytecode_old_age :: int
  bytecode_old_time :: int

text \<open>
  Modelled from the spec: the age of a \<open>SharedFunctionInfo\<close> is a 16-bit counter that is
  read atomically and updated by compare-and-swap. Other threads store to it as well (the
  function prologue resets it to 0): \<open>other_writes\<close> lists, for each compare-and-swap of
  the visitor, the store (if any) that lands between the visitor's last read of the age
  and that compare-and-swap. \<open>CompareExchangeAge\<close> returns the age it found.
\<close>

record SharedFunctionInfo =
  age :: u16
  other_writes :: "u16 option list"



definition IsOld :: "Flags \<Rightarrow> bool \<Rightarrow> u16 \<Rightarrow> SharedFunctionInfo \<Rightarrow> bool" where
  "IsOld flags isolate_in_background kMaxAge sfi =
     (if flush_code_based_on_time flags then bytecode_old_time flags \<le> uint (age sfi)
      else if flush_code_based_on_tab_visibility flags
           then isolate_in_background \<or> age sfi = kMaxAge
           else bytecode_old_age flags \<le> uint (age sfi))"





subsection \<open>Fixed arrays with a progress bar\<close>

type_synonym size_t = "64 word"

text \<open>
  Modelled from the spec: the progress bar of a large array is a cursor that is read
  atomically and updated by compare-and-swap from the value that was read. Another thread
  may store to the cursor as well: \<open>other_write\<close> is the store (if any) that lands between
  the visitor's read of the cursor and its compare-and-swap.
\<close>

record ProgressBar =
  bar_value :: size_t
  other_write :: "size_t option"

definition Value :: "ProgressBar \<Rightarrow> size_t" where
  "Value progress_bar = bar_value progress_bar"

definition TrySetNewValue :: "ProgressBar \<Rightarrow> size_t \<Rightarrow> size_t \<Rightarrow> bool \<times> ProgressBar" where
  "TrySetNewValue progress_bar old_value new_value =
     (let found = (case other_write progress_bar of
                     None \<Rightarrow> bar_value progress_bar
                   | Some w \<Rightarrow> w)
      in if found = old_value then (True, \<lparr>bar_value = new_value, other_write = None\<rparr>)
         else (False, \<lparr>bar_value = found, other_write = None\<rparr>))"

text \<open>
  C++ \<open>int\<close>: the conversions from and to \<open>size_t\<close>, and addition and subtraction, whose
  overflow is undefined behaviour and a result of type \<open>error\<close> here.
\<close>

definition int_of_size_t :: "size_t \<Rightarrow> int" where
  "int_of_size_t x = sint (ucast x :: 32 word)"

definition size_t_of_int :: "int \<Rightarrow> size_t" where
  "size_t_of_int i = word_of_int i"

definition in_int_range :: "int \<Rightarrow> bool" where
  "in_int_range i \<longleftrightarrow> - (2 ^ 31) \<le> i \<and> i < 2 ^ 31"

definition int_checked :: "int \<Rightarrow> error + int" where
  "int_checked i = (if in_int_range i then Inr i else Inl IntegerOverflow)"

definition VisitFixedArrayWithProgressBar ::
  "'ms Heap \<Rightarrow> 'ms Visitor \<Rightarrow> MapObject \<Rightarrow> HeapObject \<Rightarrow> ProgressBar \<Rightarrow>
   error + (int \<times> ProgressBar \<times> 'ms Visitor)" where
  "VisitFixedArrayWithProgressBar heap v map_object object progress_bar =
     (let kProgressBarScanningChunk = kMaxRegularHeapObjectSize heap
      in DCHECK (IsMarked heap (marking_state v) object)
           (let size = FixedArray_SizeOf heap map_object object;
                current_progress_bar = Value progress_bar;
                start0 = int_of_size_t current_progress_bar
            in case (if start0 = 0
                     then (case VisitMapPointer heap v object of
                             Inl e \<Rightarrow> Inl e
                           | Inr v1 \<Rightarrow> Inr (FixedArray_kStartOffset heap, v1))
                     else Inr (start0, v)) of
                 Inl e \<Rightarrow> Inl e
               | Inr (start, v1) \<Rightarrow>
                   (case int_checked (start + kProgressBarScanningChunk) of
                      Inl e \<Rightarrow> Inl e
                    | Inr chunk_end \<Rightarrow>
                        (let end_offset = min size chunk_end
                         in case (if start < end_offset
                                  then (case VisitPointers heap v1 object (RawField object start)
                                               (RawField object end_offset) of
                                          Inl e \<Rightarrow> Inl e
                                        | Inr v2 \<Rightarrow>
                                            (let (success, progress_bar') =
                                                   TrySetNewValue progress_bar current_progress_bar
                                                     (size_t_of_int end_offset)
                                             in if \<not> success then Inl CheckFailed
                                                else if end_offset < size
                                                     then DCHECK (ShouldMarkObject heap object)
                                                            (Inr (progress_bar',
                                                               emit (Push_marking_worklist object) v2))
                                                     else Inr (progress_bar', v2)))
                                  else Inr (progress_bar, v1)) of
                              Inl e \<Rightarrow> Inl e
                            | Inr (progress_bar', v3) \<Rightarrow>
                                (case int_checked (end_offset - start) of
                                   Inl e \<Rightarrow> Inl e
                                 | Inr r \<Rightarrow> Inr (r, progress_bar', v3))))))"

subsection \<open>Weak JavaScript objects\<close>

text \<open>What \<open>VisitEphemeronHashTable\<close> does for the entry \<open>i\<close> of the table.\<close>

definition VisitEphemeronHashTable_entry ::
  "'ms Heap \<Rightarrow> 'ms Visitor \<Rightarrow> HeapObject \<Rightarrow> nat \<Rightarrow> error + 'ms Visitor" where
  "VisitEphemeronHashTable_entry heap v table i =
     (let key_slot = RawFieldOfElementAt heap table (EntryToIndex heap i);
          key = KeyAt heap table i;
          v1 = emit (SynchronizePageAccess key) v;
          v2 = emit (RecordSlot table key_slot key) v1;
          v3 = emit (AddWeakReferenceForReferenceSummarizer table key) v2;
          value_slot = RawFieldOfElementAt heap table (EntryToValueIndex heap i)
      in DCHECK (\<not> InWritableSharedSpace heap key)
           (if InReadOnlySpace heap key \<or> IsMarked heap (marking_state v3) key
            then VisitPointer heap v3 table value_slot
            else (case ValueAt heap table i of
                    StrongRef val \<Rightarrow>
                      (let v4 = emit (SynchronizePageAccess val) v3;
                           v5 = emit (RecordSlot table value_slot val) v4;
                           v6 = emit (AddWeakReferenceForReferenceSummarizer table val) v5
                       in if \<not> ShouldMarkObject heap val then Inr v6
                          else if IsUnmarked heap (marking_state v6) val
                               then Inr (emit (Push_discovered_ephemerons key val) v6)
                               else Inr v6)
                  | other \<Rightarrow> Inr v3)))"

fun VisitEphemeronHashTable_entries ::
  "'ms Heap \<Rightarrow> 'ms Visitor \<Rightarrow> HeapObject \<Rightarrow> nat list \<Rightarrow> error + 'ms Visitor" where
  "VisitEphemeronHashTable_entries heap v table [] = Inr v"
| "VisitEphemeronHashTable_entries heap v table (i # rest) =
     (case VisitEphemeronHashTable_entry heap v table i of
        Inl e \<Rightarrow> Inl e
      | Inr v' \<Rightarrow> VisitEphemeronHashTable_entries heap v' table rest)"

definition VisitEphemeronHashTable ::
  "'ms Heap \<Rightarrow> 'ms Visitor \<Rightarrow> MapObject \<Rightarrow> HeapObject \<Rightarrow> error + (int \<times> 'ms Visitor)" where
  "VisitEphemeronHashTable heap v map_object table =
     (let v0 = emit (Push_ephemeron_hash_tables table) v
      in case VisitEphemeronHashTable_entries heap v0 table [0..<Capacity heap table] of
           Inl e \<Rightarrow> Inl e
         | Inr v' \<Rightarrow> Inr (SizeFromMap heap table map_object, v'))"

definition VisitJSWeakRef ::
  "'ms Heap \<Rightarrow> 'ms Visitor \<Rightarrow> MapObject \<Rightarrow> HeapObject \<Rightarrow> error + (int \<times> 'ms Visitor)" where
  "VisitJSWeakRef heap v map_object weak_ref =
     (case VisitJSObjectSubclass heap v map_object weak_ref of
        Inl e \<Rightarrow> Inl e
      | Inr (size', v1) \<Rightarrow>
          if size' = 0 then Inr (0, v1)
          else (case target heap weak_ref of
                  StrongRef target_object \<Rightarrow>
                    (let v2 = emit (SynchronizePageAccess target_object) v1
                     in if InReadOnlySpace heap target_object \<or>
                           IsMarked heap (marking_state v2) target_object
                        then (let slot = RawField weak_ref (JSWeakRef_kTargetOffset heap)
                              in Inr (size', emit (RecordSlot weak_ref slot target_object) v2))
                        else Inr (size',
                               emit (AddWeakReferenceForReferenceSummarizer weak_ref target_object)
                                 (emit (Push_js_weak_refs weak_ref) v2)))
                | other \<Rightarrow> Inr (size', v1)))"

subsection \<open>Reading the record of calls\<close>

fun load_of :: "call \<Rightarrow> Slot list" where
  "load_of (Load slot) = [slot]"
| "load_of other = []"

definition loads :: "call list \<Rightarrow> Slot list" where
  "loads cs = concat (map load_of cs)"

definition pushes :: "HeapObject \<Rightarrow> call list \<Rightarrow> nat" where
  "pushes object cs = count_list cs (Push_marking_worklist object)"

fun is_pointer_visit_call :: "call \<Rightarrow> bool" where
  "is_pointer_visit_call (Push_ephemeron_hash_tables t) = False"
| "is_pointer_visit_call (Push_discovered_ephemerons k val) = False"
| "is_pointer_visit_call (Push_js_weak_refs w) = False"
| "is_pointer_visit_call other = True"

text \<open>
  The contract of the marking state: \<open>TryMark\<close> is a test-and-set, it returns true
  exactly when the object was not marked yet, and marks are never taken back.
\<close>

definition marking_ok :: "'ms Heap \<Rightarrow> bool" where
  "marking_ok heap \<longleftrightarrow>
     (\<forall>ms object.
        (fst (TryMark heap ms object) \<longleftrightarrow> \<not> IsMarked heap ms object) \<and>
        IsMarked heap (snd (TryMark heap ms object)) object \<and>
        (\<forall>x. IsMarked heap ms x \<longrightarrow> IsMarked heap (snd (TryMark heap ms object)) x))"

definition heap_ok :: "'ms Heap \<Rightarrow> bool" where
  "heap_ok heap \<longleftrightarrow> (\<forall>object. ReadOnlyHeap_Contains heap object \<or> heap_Contains heap object)"

text \<open>
  How one state of the visitor follows another: calls are only added, marks are only
  added, and an object is pushed onto the marking worklist at most once and only when it
  becomes marked.
\<close>

definition marks_step :: "'ms Heap \<Rightarrow> 'ms Visitor \<Rightarrow> 'ms Visitor \<Rightarrow> call list \<Rightarrow> bool" where
  "marks_step heap v v' new \<longleftrightarrow>
     calls v' = calls v @ new \<and>
     (\<forall>x. IsMarked heap (marking_state v) x \<longrightarrow> IsMarked heap (marking_state v') x) \<and>
     (\<forall>x. pushes x new \<le> 1 \<and>
          (0 < pushes x new \<longrightarrow>
             \<not> IsMarked heap (marking_state v) x \<and> IsMarked heap (marking_state v') x))"

text \<open>
  What a visit of pointers does: it adds calls, of the kinds that \<open>VisitPointersImpl\<close>
  makes, it loads the given slots in order, and, when the marking state keeps its
  contract, it pushes what it newly marks and nothing else.
\<close>

definition pointer_step :: "'ms Heap \<Rightarrow> 'ms Visitor \<Rightarrow> 'ms Visitor \<Rightarrow> Slot list \<Rightarrow> bool" where
  "pointer_step heap v v' slots \<longleftrightarrow>
     (\<exists>new. calls v' = calls v @ new \<and> loads new = slots \<and>
            list_all is_pointer_visit_call new \<and>
            (marking_ok heap \<longrightarrow> marks_step heap v v' new))"

text \<open>The slots from \<open>slot\<close> up to \<open>end_slot\<close>, one tagged field apart.\<close>

function slot_range :: "'ms Heap \<Rightarrow> Slot \<Rightarrow> Slot \<Rightarrow> Slot list" where
  "slot_range heap slot end_slot =
     (if slot < end_slot then slot # slot_range heap (slot + kTaggedSize heap) end_slot else [])"
  by pat_completeness auto

termination
proof (relation "measure (\<lambda>(heap, slot, end_slot). end_slot - slot)", goal_cases)
  case 1
  show ?case by simp
next
  case (2 heap slot end_slot)
  have "0 < kTaggedSize heap"
    by (rule kTaggedSize_pos)
  with 2 show ?case
    by simp
qed

declare slot_range.simps [simp del]

text \<open>A sequence of \<open>MarkObject\<close> calls, each with its host and its referent.\<close>

fun MarkObjects ::
  "'ms Heap \<Rightarrow> 'ms Visitor \<Rightarrow> (HeapObject \<times> HeapObject) list \<Rightarrow> error + 'ms Visitor" where
  "MarkObjects heap v [] = Inr v"
| "MarkObjects heap v ((host, object) # rest) =
     (case MarkObject heap v host object of
        Inl e \<Rightarrow> Inl e
      | Inr v' \<Rightarrow> MarkObjects heap v' rest)"

text \<open>
  Within a marking cycle: no object has been pushed onto the marking worklist twice, and
  what has been pushed is marked. This holds when the cycle starts, with nothing pushed.
\<close>

definition pushed_once :: "'ms Heap \<Rightarrow> 'ms Visitor \<Rightarrow> bool" where
  "pushed_once heap v \<longleftrightarrow>
     (\<forall>x. pushes x (calls v) \<le> 1 \<and>
          (0 < pushes x (calls v) \<longrightarrow> IsMarked heap (marking_state v) x))"

text \<open>
  A heap for the examples. The marking state is the list of marked objects. Tagged fields
  are 8 bytes. At 1000 lies a fixed array of 48 bytes whose elements start at offset 16,
  scanned in chunks of 16 bytes; at 3000 an ephemeron hash table with three entries; at
  5000 a weak reference to 2032. The objects 500 (a map) and 4000 are read-only.
\<close>

definition example_heap :: "HeapObject list Heap" where
  "example_heap =
     \<lparr>TryMark = (\<lambda>ms object. (object \<notin> set ms, if object \<in> set ms then ms else object # ms)),
      IsMarked = (\<lambda>ms object. object \<in> set ms),
      IsUnmarked = (\<lambda>ms object. object \<notin> set ms),
      Relaxed_Load = (\<lambda>slot. Smi 0)
        (1016 := StrongRef 2000, 1024 := Smi 7, 1032 := StrongRef 2008, 1040 := StrongRef 2000,
         3024 := StrongRef 2008, 3040 := StrongRef 2024),
      ReadOnlyHeap_Contains = (\<lambda>object. object = 500 \<or> object = 4000),
      heap_Contains = (\<lambda>object. object \<noteq> 500 \<and> object \<noteq> 4000),
      InReadOnlySpace = (\<lambda>object. object = 500 \<or> object = 4000),
      InWritableSharedSpace = (\<lambda>object. False),
      ShouldMarkObject = (\<lambda>object. object \<noteq> 500 \<and> object \<noteq> 4000),
      retaining_path_mode = kDisabled,
      kTaggedSizeLog2 = 3,
      map_word = (\<lambda>object. 500),
      kMaxRegularHeapObjectSize = 16,
      FixedArray_SizeOf = (\<lambda>map_object object. 48),
      FixedArray_kStartOffset = 16,
      Capacity = (\<lambda>table. 3),
      KeyAt = (\<lambda>table i. if i = 0 then 2000 else if i = 1 then 4000 else 2016),
      ValueAt = (\<lambda>table i. if i = 0 then StrongRef 2008 else if i = 1 then StrongRef 2024
                           else Smi 5),
      EntryToIndex = (\<lambda>i. 2 * int i),
      EntryToValueIndex = (\<lambda>i. 2 * int i + 1),
      OffsetOfElementAt = (\<lambda>index. 16 + 8 * index),
      SizeFromMap = (\<lambda>table map_object. 64),
      target = (\<lambda>weak_ref. StrongRef 2032),
      JSWeakRef_kTargetOffset = 24,
      VisitJSObjectSubclass = (\<lambda>v map_object object. Inr (32, v))\<rparr>"

definition fresh_Visitor :: "HeapObject list Visitor" where
  "fresh_Visitor = \<lparr>marking_state = [], calls = []\<rparr>"

definition key_slot_of :: "'ms Heap \<Rightarrow> HeapObject \<Rightarrow> nat \<Rightarrow> Slot" where
  "key_slot_of heap table i = RawFieldOfElementAt heap table (EntryToIndex heap i)"

definition value_slot_of :: "'ms Heap \<Rightarrow> HeapObject \<Rightarrow> nat \<Rightarrow> Slot" where
  "value_slot_of heap table i = RawFieldOfElementAt heap table (EntryToValueIndex heap i)"

definition key_calls :: "'ms Heap \<Rightarrow> HeapObject \<Rightarrow> nat \<Rightarrow> call list" where
  "key_calls heap table i =
     [SynchronizePageAccess (KeyAt heap table i),
      RecordSlot table (key_slot_of heap table i) (KeyAt heap table i),
      AddWeakReferenceForReferenceSummarizer table (KeyAt heap table i)]"

subsection \<open>Examples of aging\<close>






subsection \<open>Increments of a fixed array with a progress bar\<close>

text \<open>
  The values of the local variables \<open>start\<close> and \<open>end\<close> of
  \<open>VisitFixedArrayWithProgressBar\<close> at the test \<open>start < end\<close>.
\<close>

definition increment_start :: "'ms Heap \<Rightarrow> ProgressBar \<Rightarrow> int" where
  "increment_start heap progress_bar =
     (let start = int_of_size_t (Value progress_bar)
      in if start = 0 then FixedArray_kStartOffset heap else start)"

definition increment_end :: "'ms Heap \<Rightarrow> MapObject \<Rightarrow> HeapObject \<Rightarrow> ProgressBar \<Rightarrow> int" where
  "increment_end heap map_object object progress_bar =
     min (FixedArray_SizeOf heap map_object object)
         (increment_start heap progress_bar + kMaxRegularHeapObjectSize heap)"

text \<open>
  Modelled from the spec: the marker visits the array again each time the array has been
  pushed back onto the marking worklist. The result is \<open>None\<close> when this never ends.
\<close>

partial_function (option) VisitIncrements ::
  "'ms Heap \<Rightarrow> 'ms Visitor \<Rightarrow> MapObject \<Rightarrow> HeapObject \<Rightarrow> ProgressBar \<Rightarrow>
   (error + (ProgressBar \<times> 'ms Visitor)) option" where
  "VisitIncrements heap v map_object object progress_bar =
     (case VisitFixedArrayWithProgressBar heap v map_object object progress_bar of
        Inl e \<Rightarrow> Some (Inl e)
      | Inr (r, progress_bar', v') \<Rightarrow>
          if pushes object (calls v) < pushes object (calls v')
          then VisitIncrements heap v' map_object object progress_bar'
          else Some (Inr (progress_bar', v')))"

declare VisitIncrements.simps [code]

text \<open>
  The circumstances of an increment: the array is marked, its size is at least the offset
  of its first element, the chunk size is positive and a multiple of the size of a tagged
  field (the \<open>static_assert\<close> of the source), sizes are far from the largest \<open>int\<close>, and
  the cursor lies within the array.
\<close>

definition array_ok ::
  "'ms Heap \<Rightarrow> 'ms Visitor \<Rightarrow> MapObject \<Rightarrow> HeapObject \<Rightarrow> ProgressBar \<Rightarrow> bool" where
  "array_ok heap v map_object object progress_bar \<longleftrightarrow>
     IsMarked heap (marking_state v) object \<and> ShouldMarkObject heap object \<and>
     0 \<le> FixedArray_kStartOffset heap \<and>
     FixedArray_kStartOffset heap \<le> FixedArray_SizeOf heap map_object object \<and>
     0 < kMaxRegularHeapObjectSize heap \<and>
     kMaxRegularHeapObjectSize heap mod int (kTaggedSize heap) = 0 \<and>
     FixedArray_SizeOf heap map_object object + kMaxRegularHeapObjectSize heap < 2 ^ 31 \<and>
     0 \<le> int_of_size_t (Value progress_bar) \<and>
     int_of_size_t (Value progress_bar) \<le> FixedArray_SizeOf heap map_object object"

section \<open>Facts about the table\<close>

lemma DCHECK_simps:
  "DCHECK True k = k" "DCHECK False k = Inl DCheckFailed"
  by (simp_all add: DCHECK_def)

subsection \<open>Word arithmetic of segments and pages\<close>

lemma unat_of_nat32: "n < 2 ^ 32 \<Longrightarrow> unat (of_nat n :: u32) = n"
  by (simp add: unat_of_nat)

lemma unat_ucast_down:
  fixes w :: Address
  assumes "unat w < 2 ^ 32"
  shows "unat (ucast w :: u32) = unat w"
  using assms by (simp add: unsigned_ucast_eq take_bit_nat_eq_self)

lemma unat_ucast_up:
  fixes x :: u32
  shows "unat (ucast x :: Address) = unat x"
proof -
  have "unat x < 2 ^ 32"
    using unsigned_less [of x] by simp
  then have "unat x < 2 ^ 64"
    by (rule less_trans) simp
  then show ?thesis
    by (simp add: unsigned_ucast_eq take_bit_nat_eq_self)
qed

lemma page_segment:
  assumes ok: "cfg_ok cfg" and pg: "page_ok cfg v a"
  defines "off \<equiv> unat (a - vas_base v)"
  defines "seg \<equiv> (of_nat (off div kSegmentSize cfg) :: u32)"
  shows "Segment_At cfg (ucast (a - vas_base v)) = Inr seg"
    and "unat seg = off div kSegmentSize cfg"
    and "unat seg < kReservationSize cfg div kSegmentSize cfg"
    and "segment_start cfg v seg = a"
    and "a \<noteq> vas_base v \<Longrightarrow> seg \<noteq> 0"
proof -
  let ?S = "kSegmentSize cfg" and ?R = "kReservationSize cfg"
  from ok have S: "0 < ?S" and R: "?R \<le> 2 ^ 32"
    by (simp_all add: cfg_ok_def)
  from pg have al: "off mod ?S = 0" and fit: "off + ?S \<le> ?R"
    by (simp_all add: page_ok_def off_def)
  from fit S R have off32: "off < 2 ^ 32"
    by linarith
  then have u: "unat (ucast (a - vas_base v) :: u32) = off"
    unfolding off_def by (simp add: unat_ucast_down)
  have "off div ?S \<le> off"
    by simp
  with off32 have q32: "off div ?S < 2 ^ 32"
    by linarith
  then show useg: "unat seg = off div ?S"
    by (simp add: seg_def unat_of_nat32)
  from al u show "Segment_At cfg (ucast (a - vas_base v)) = Inr seg"
    by (simp add: Segment_At_def DCHECK_def seg_def)
  from al have offeq: "off div ?S * ?S = off"
    by (simp add: div_mult_self_is_m mod_eq_0_iff_dvd)
  have "(off div ?S + 1) * ?S \<le> ?R"
    using offeq fit by (simp add: algebra_simps)
  then have "off div ?S + 1 \<le> ?R div ?S"
    using S by (simp add: less_eq_div_iff_mult_less_eq)
  with useg show "unat seg < ?R div ?S"
    by simp
  have "unat (Segment_offset cfg seg) = off"
    using useg offeq off32 by (simp add: Segment_offset_def unat_of_nat32)
  then have "unat (ucast (Segment_offset cfg seg) :: Address) = unat (a - vas_base v)"
    by (simp add: unat_ucast_up off_def)
  then have "(ucast (Segment_offset cfg seg) :: Address) = a - vas_base v"
    by (simp only: word_unat_eq_iff)
  then show "segment_start cfg v seg = a"
    by (simp add: segment_start_def)
  show "seg \<noteq> 0" if ne: "a \<noteq> vas_base v"
  proof
    assume "seg = 0"
    with useg have "off div ?S = 0"
      by simp
    with offeq have "off = 0"
      by simp
    then have "a - vas_base v = 0"
      by (simp add: off_def unat_eq_0)
    with ne show False
      by simp
  qed
qed


lemma segment_entries:
  assumes ok: "cfg_ok cfg" and n0: "seg \<noteq> 0"
    and bound: "unat seg < kReservationSize cfg div kSegmentSize cfg"
  defines "k \<equiv> kEntriesPerSegment cfg"
  defines "f \<equiv> unat seg * k"
  shows "unat (first_entry cfg seg) = f"
    and "unat (last_entry cfg seg) = f + k - 1"
    and "f + k \<le> 2 ^ 32"
    and "0 < k" and "k \<le> f"
    and "last_entry cfg seg - first_entry cfg seg + 1 = of_nat k"
    and "unat (of_nat k :: u32) = k"
proof -
  from ok have k: "0 < k" and cap: "(kReservationSize cfg div kSegmentSize cfg) * k \<le> 2 ^ 32"
    by (simp_all add: cfg_ok_def k_def)
  show "0 < k" by (rule k)
  from bound have "(unat seg + 1) * k \<le> (kReservationSize cfg div kSegmentSize cfg) * k"
    by (intro mult_le_mono1) simp
  from this cap have "(unat seg + 1) * k \<le> 2 ^ 32"
    by (rule le_trans)
  then show fk: "f + k \<le> 2 ^ 32"
    by (simp add: f_def algebra_simps)
  from n0 have "1 \<le> unat seg"
    by (simp add: unat_gt_0 Suc_le_eq)
  then have "1 * k \<le> unat seg * k"
    by (intro mult_le_mono1)
  then show kf: "k \<le> f"
    by (simp add: f_def)
  from fk k have f32: "f < 2 ^ 32"
    by linarith
  then have "unat (of_nat f :: u32) = f"
    by (rule unat_of_nat32)
  then show uf: "unat (first_entry cfg seg) = f"
    by (simp only: first_entry_def f_def k_def)
  from kf fk k have k32: "k < 2 ^ 32"
    by linarith
  then show uk: "unat (of_nat k :: u32) = k"
    by (rule unat_of_nat32)
  have "(of_nat (f + k - 1) :: u32) = of_nat f + of_nat k - 1"
    using k by (simp add: of_nat_diff)
  then have "last_entry cfg seg = of_nat (f + k - 1)"
    by (simp only: last_entry_def first_entry_def f_def k_def)
  moreover from fk k have "f + k - 1 < 2 ^ 32"
    by linarith
  then have "unat (of_nat (f + k - 1) :: u32) = f + k - 1"
    by (rule unat_of_nat32)
  ultimately show "unat (last_entry cfg seg) = f + k - 1"
    by (simp only:)
  show "last_entry cfg seg - first_entry cfg seg + 1 = of_nat k"
    by (simp add: last_entry_def k_def)
qed

lemma Extend_loop_at:
  "Extend_loop cfg i lst m j =
     (if i \<le> j \<and> j < lst then MakeFreelistEntry cfg (m j) (j + 1) else m j)"
proof (induction cfg i lst m rule: Extend_loop.induct)
  case (1 cfg i lst m)
  show ?case
  proof (cases "i < lst")
    case False
    then show ?thesis
      by (subst Extend_loop.simps) auto
  next
    case True
    define m' where "m' = m(i := MakeFreelistEntry cfg (m i) (i + 1))"
    from True have suc: "unat (i + 1) = Suc (unat i)"
      by (rule unat_plus_one_less)
    have le: "i + 1 \<le> j \<longleftrightarrow> i \<le> j \<and> j \<noteq> i"
      using suc by (auto simp: word_le_nat_alt word_unat_eq_iff)
    have step: "Extend_loop cfg i lst m = Extend_loop cfg (i + 1) lst m'"
      using True by (subst Extend_loop.simps) (simp add: Let_def m'_def)
    have IH: "Extend_loop cfg (i + 1) lst m' j =
        (if i + 1 \<le> j \<and> j < lst then MakeFreelistEntry cfg (m' j) (j + 1) else m' j)"
      unfolding m'_def by (rule 1 [OF True refl])
    show ?thesis
      unfolding step IH le using True by (auto simp: m'_def)
  qed
qed

lemma linked_range_entries:
  assumes get: "\<And>x. a \<le> x \<Longrightarrow> x < b \<Longrightarrow>
      GetNextFreelistEntryIndex cfg (m (of_nat x)) = (if Suc x = b then 0 else of_nat (Suc x))"
  shows "a \<le> x \<Longrightarrow> x + d = b \<Longrightarrow> freelist_entries cfg m (of_nat x) d = map of_nat [x..<b]"
proof (induction d arbitrary: x)
  case 0
  then show ?case by simp
next
  case (Suc d)
  then have lt: "x < b" by simp
  show ?case
  proof (cases "Suc x = b")
    case True
    with Suc.prems have "d = 0" by simp
    with True show ?thesis
      by (simp add: upt_conv_Cons)
  next
    case False
    with get [OF Suc.prems(1) lt]
    have "GetNextFreelistEntryIndex cfg (m (of_nat x)) = of_nat (Suc x)"
      by simp
    moreover have "freelist_entries cfg m (of_nat (Suc x)) d = map of_nat [Suc x..<b]"
      using Suc.prems by (intro Suc.IH) simp_all
    ultimately show ?thesis
      using lt by (simp add: upt_conv_Cons)
  qed
qed

lemma linked_range_end:
  assumes get: "\<And>x. a \<le> x \<Longrightarrow> x < b \<Longrightarrow>
      GetNextFreelistEntryIndex cfg (m (of_nat x)) = (if Suc x = b then 0 else of_nat (Suc x))"
  shows "a \<le> x \<Longrightarrow> x + Suc d = b \<Longrightarrow> freelist_end cfg m (of_nat x) (Suc d) = 0"
proof (induction d arbitrary: x)
  case 0
  then have "x < b" "Suc x = b" by simp_all
  with get [OF 0(1)] show ?case by simp
next
  case (Suc d)
  then have lt: "x < b" and ne: "Suc x \<noteq> b" by simp_all
  with get [OF Suc.prems(1) lt]
  have "GetNextFreelistEntryIndex cfg (m (of_nat x)) = of_nat (Suc x)"
    by simp
  moreover have "freelist_end cfg m (of_nat (Suc x)) (Suc d) = 0"
    using Suc.prems by (intro Suc.IH) simp_all
  ultimately show ?case
    by simp
qed

lemma distinct_map_of_nat32:
  assumes "b \<le> 2 ^ 32"
  shows "distinct (map (of_nat :: nat \<Rightarrow> u32) [a..<b])"
proof -
  have "inj_on (of_nat :: nat \<Rightarrow> u32) (set [a..<b])"
  proof (rule inj_onI)
    fix x y assume "x \<in> set [a..<b]" "y \<in> set [a..<b]"
      and eq: "(of_nat x :: u32) = of_nat y"
    then have xb: "x < b" and yb: "y < b" by simp_all
    from xb assms have "x < 2 ^ 32" by (rule less_le_trans)
    moreover from yb assms have "y < 2 ^ 32" by (rule less_le_trans)
    ultimately have "unat (of_nat x :: u32) = x" "unat (of_nat y :: u32) = y"
      by (simp_all add: unat_of_nat32)
    with eq show "x = y" by metis
  qed
  then show ?thesis
    by (simp add: distinct_map)
qed

lemma AllocateTableSegment_OOM:
  assumes "vas t = Some v" and "AllocatePages cfg v kNoHint kReadWrite = 0"
  shows "AllocateTableSegment cfg t = Inl FatalProcessOutOfMemory"
  using assms by (simp add: AllocateTableSegment_def)

lemma AllocateTableSegment_fresh:
  assumes ok: "cfg_ok cfg" and v: "vas t = Some v"
    and seg0: "vas_pages v (vas_base v) = Some kRead"
    and a: "AllocatePages cfg v kNoHint kReadWrite = a" and a0: "a \<noteq> 0"
  obtains seg where
    "AllocateTableSegment cfg t =
       Inr (seg, t\<lparr>vas := Some (v\<lparr>vas_pages := (vas_pages v)(a \<mapsto> kReadWrite)\<rparr>)\<rparr>)"
    and "seg \<noteq> 0" and "unat seg < kReservationSize cfg div kSegmentSize cfg"
    and "segment_start cfg v seg = a" and "a \<notin> dom (vas_pages v)"
proof -
  from ok a a0 have pg: "page_ok cfg v a"
    unfolding cfg_ok_def by blast
  then have fresh: "a \<notin> dom (vas_pages v)"
    by (simp add: page_ok_def)
  with seg0 have ne: "a \<noteq> vas_base v"
    by auto
  define seg :: u32 where "seg = of_nat (unat (a - vas_base v) div kSegmentSize cfg)"
  note ps = page_segment [OF ok pg, folded seg_def]
  have eq: "AllocateTableSegment cfg t =
       Inr (seg, t\<lparr>vas := Some (v\<lparr>vas_pages := (vas_pages v)(a \<mapsto> kReadWrite)\<rparr>)\<rparr>)"
    using v a a0 ps(1) by (simp add: AllocateTableSegment_def Let_def)
  show thesis
    by (rule that [OF eq ps(5) [OF ne] ps(3) ps(4) fresh])
qed

lemma Extend_mem_links:
  fixes m :: "u32 \<Rightarrow> 'e" and cfg :: "'e Cfg"
  assumes ok: "cfg_ok cfg" and n0: "seg \<noteq> 0"
    and bound: "unat seg < kReservationSize cfg div kSegmentSize cfg"
  defines "first \<equiv> first_entry cfg seg" and "lst \<equiv> last_entry cfg seg"
  defines "m1 \<equiv> Extend_loop cfg first lst m"
  defines "m2 \<equiv> m1(lst := MakeFreelistEntry cfg (m1 lst) 0)"
  defines "f \<equiv> unat seg * kEntriesPerSegment cfg"
  shows "f \<le> x \<Longrightarrow> x < f + kEntriesPerSegment cfg \<Longrightarrow>
      GetNextFreelistEntryIndex cfg (m2 (of_nat x)) =
        (if Suc x = f + kEntriesPerSegment cfg then 0 else of_nat (Suc x))"
    and "\<not> (first \<le> j \<and> j \<le> lst) \<Longrightarrow> m2 j = m j"
proof -
  let ?k = "kEntriesPerSegment cfg"
  note se = segment_entries [OF ok n0 bound, folded f_def first_def lst_def]
  from ok have get: "\<And>e n. GetNextFreelistEntryIndex cfg (MakeFreelistEntry cfg e n) = n"
    by (simp add: cfg_ok_def)
  from se(1) se(2) se(4) have fl: "first \<le> lst"
    by (simp add: word_le_nat_alt)
  show "m2 j = m j" if "\<not> (first \<le> j \<and> j \<le> lst)"
    using that fl by (auto simp: m2_def m1_def Extend_loop_at)
  show "GetNextFreelistEntryIndex cfg (m2 (of_nat x)) =
        (if Suc x = f + ?k then 0 else of_nat (Suc x))"
    if lo: "f \<le> x" and hi: "x < f + ?k"
  proof -
    from hi se(3) have x32: "x < 2 ^ 32"
      by (rule less_le_trans)
    then have ux: "unat (of_nat x :: u32) = x"
      by (rule unat_of_nat32)
    show ?thesis
    proof (cases "Suc x = f + ?k")
      case True
      then have "x = f + ?k - 1" by simp
      with se(2) ux have "(of_nat x :: u32) = lst"
        by (simp add: word_unat_eq_iff)
      with True show ?thesis
        by (simp add: m2_def get)
    next
      case False
      with hi have lt: "x < f + ?k - 1" by simp
      with se(2) ux have ltw: "(of_nat x :: u32) < lst"
        by (simp add: word_less_nat_alt)
      from lo se(1) ux have lew: "first \<le> (of_nat x :: u32)"
        by (simp add: word_le_nat_alt)
      from ltw have "(of_nat x :: u32) \<noteq> lst" by simp
      with ltw lew False show ?thesis
        by (simp add: m2_def m1_def Extend_loop_at get)
    qed
  qed
qed

lemma set_set_insert: "set (set_insert x xs) = insert x (set xs)"
  by (auto simp: set_insert_def set_insort_key)

lemma segment_entry_facts:
  assumes ok: "cfg_ok cfg" and n0: "seg \<noteq> 0"
    and bound: "unat seg < kReservationSize cfg div kSegmentSize cfg"
    and lo: "unat seg * kEntriesPerSegment cfg \<le> x"
    and hi: "x < unat seg * kEntriesPerSegment cfg + kEntriesPerSegment cfg"
  shows "(of_nat x :: u32) \<noteq> 0" and "Segment_Containing cfg (of_nat x) = seg"
proof -
  note se = segment_entries [OF ok n0 bound]
  from hi se(3) have "x < 2 ^ 32"
    by (rule less_le_trans)
  then have ux: "unat (of_nat x :: u32) = x"
    by (rule unat_of_nat32)
  from se(4) se(5) lo have "0 < x"
    by linarith
  with ux show "(of_nat x :: u32) \<noteq> 0"
    by (metis less_numeral_extra(3) unsigned_0)
  from lo hi have "x div kEntriesPerSegment cfg = unat seg"
    by (intro div_nat_eqI) (simp_all add: mult.commute)
  with ux show "Segment_Containing cfg (of_nat x) = seg"
    by (simp add: Segment_Containing_def)
qed

lemma Extend_step:
  fixes cfg :: "'e Cfg" and t :: "'e Table"
  assumes sok: "space_ok cfg t space" and held: "mutex space"
    and empty: "length' (freelist_head space) = 0"
    and v: "vas t = Some v"
    and a: "AllocatePages cfg v kNoHint kReadWrite = a" and a0: "a \<noteq> 0"
  obtains seg t' space' where
    "Extend cfg t space = Inr (freelist_head space', t', space')"
    and "seg \<noteq> 0" and "seg \<notin> set (segments space)"
    and "segments space' = set_insert seg (segments space)"
    and "freelist_head space' =
           \<lparr>next' = first_entry cfg seg, length' = of_nat (kEntriesPerSegment cfg)\<rparr>"
    and "unat (length' (freelist_head space')) = kEntriesPerSegment cfg"
    and "vas t' = Some (v\<lparr>vas_pages := (vas_pages v)(a \<mapsto> kReadWrite)\<rparr>)"
    and "segment_start cfg v seg = a" and "a \<notin> dom (vas_pages v)"
    and "free_entries cfg t' space' =
           map of_nat [unat seg * kEntriesPerSegment cfg ..<
                       unat seg * kEntriesPerSegment cfg + kEntriesPerSegment cfg]"
    and "mem t' = (Extend_loop cfg (first_entry cfg seg) (last_entry cfg seg) (mem t))
           (last_entry cfg seg := MakeFreelistEntry cfg
              (Extend_loop cfg (first_entry cfg seg) (last_entry cfg seg) (mem t) (last_entry cfg seg)) 0)"
    and "space_ok cfg t' space'" and "mutex space'"
proof -
  let ?k = "kEntriesPerSegment cfg"
  from sok have ok: "cfg_ok cfg"
    by (simp add: space_ok_def)
  from sok v have seg0: "vas_pages v (vas_base v) = Some kRead"
    and bs: "base t = vas_base v" "base t \<noteq> 0"
    and pages: "\<forall>n \<in> set (segments space). segment_start cfg v n \<in> dom (vas_pages v)"
    and own: "BelongsTo space t"
    and segs: "\<forall>n \<in> set (segments space). n \<noteq> 0 \<and> unat n < kReservationSize cfg div kSegmentSize cfg"
    by (auto simp: space_ok_def)
  obtain seg where
    ats: "AllocateTableSegment cfg t =
       Inr (seg, t\<lparr>vas := Some (v\<lparr>vas_pages := (vas_pages v)(a \<mapsto> kReadWrite)\<rparr>)\<rparr>)"
    and n0: "seg \<noteq> 0" and bound: "unat seg < kReservationSize cfg div kSegmentSize cfg"
    and st: "segment_start cfg v seg = a" and fresh: "a \<notin> dom (vas_pages v)"
    by (rule AllocateTableSegment_fresh [OF ok v seg0 a a0])
  define f where "f = unat seg * ?k"
  define first lst where "first = first_entry cfg seg" and "lst = last_entry cfg seg"
  define m1 where "m1 = Extend_loop cfg first lst (mem t)"
  define m2 where "m2 = m1(lst := MakeFreelistEntry cfg (m1 lst) 0)"
  define v' where "v' = v\<lparr>vas_pages := (vas_pages v)(a \<mapsto> kReadWrite)\<rparr>"
  define t' where "t' = t\<lparr>vas := Some v', mem := m2\<rparr>"
  define h where "h = \<lparr>next' = first, length' = of_nat ?k\<rparr>"
  define space' where "space' = space\<lparr>segments := set_insert seg (segments space), freelist_head := h\<rparr>"
  note se = segment_entries [OF ok n0 bound, folded f_def first_def lst_def]
  have links: "GetNextFreelistEntryIndex cfg (m2 (of_nat x)) =
      (if Suc x = f + ?k then 0 else of_nat (Suc x))" if "f \<le> x" "x < f + ?k" for x
    using that unfolding m2_def m1_def first_def lst_def f_def
    by (rule Extend_mem_links(1) [OF ok n0 bound])
  have notin: "seg \<notin> set (segments space)"
    using pages st fresh by auto
  have ext: "Extend cfg t space = Inr (freelist_head space', t', space')"
    using held empty ats n0 se(6)
    by (simp add: Extend_def freelist_length_def DCHECK_def Let_def first_def lst_def
        m1_def m2_def t'_def v'_def h_def space'_def)
  have first: "first = of_nat f"
    using se(1) by (metis of_nat_unat ucast_id)
  have "freelist_entries cfg m2 (of_nat f) ?k = map of_nat [f..<f + ?k]"
  proof (rule linked_range_entries [where a = f and b = "f + ?k"])
    show "GetNextFreelistEntryIndex cfg (m2 (of_nat x)) =
        (if Suc x = f + ?k then 0 else of_nat (Suc x))" if "f \<le> x" "x < f + ?k" for x
      using that by (rule links)
  qed simp_all
  then have fe: "free_entries cfg t' space' = map of_nat [f..<f + ?k]"
    unfolding free_entries_def using se(7)
    by (simp add: space'_def h_def t'_def first)
  have fend: "freelist_end cfg (mem t') (next' (freelist_head space'))
      (unat (length' (freelist_head space'))) = 0"
  proof -
    from se(4) obtain d where d: "?k = Suc d"
      by (cases ?k) simp_all
    have "freelist_end cfg m2 (of_nat f) (Suc d) = 0"
    proof (rule linked_range_end [where a = f and b = "f + ?k"])
      show "GetNextFreelistEntryIndex cfg (m2 (of_nat x)) =
          (if Suc x = f + ?k then 0 else of_nat (Suc x))" if "f \<le> x" "x < f + ?k" for x
        using that by (rule links)
    qed (simp_all add: d)
    then show ?thesis
      using se(7) by (simp add: space'_def h_def t'_def first d)
  qed
  have fok: "freelist_ok cfg t' space'"
    unfolding freelist_ok_def
  proof (intro conjI ballI)
    show "distinct (free_entries cfg t' space')"
      unfolding fe using se(3) by (rule distinct_map_of_nat32)
    show "freelist_end cfg (mem t') (next' (freelist_head space'))
      (unat (length' (freelist_head space'))) = 0"
      by (rule fend)
  next
    fix i assume "i \<in> set (free_entries cfg t' space')"
    then obtain x where x: "i = of_nat x" "f \<le> x" "x < f + ?k"
      unfolding fe by auto
    from segment_entry_facts [OF ok n0 bound x(2) [unfolded f_def] x(3) [unfolded f_def]] x(1)
    show "i \<noteq> 0" and "Segment_Containing cfg i \<in> set (segments space')"
      by (simp_all add: space'_def set_set_insert)
  qed
  from seg0 fresh have ab: "a \<noteq> vas_base v"
    by auto
  have sok': "space_ok cfg t' space'"
    unfolding space_ok_def
    using ok bs seg0 ab pages own segs n0 bound st fok
    by (auto simp: t'_def v'_def space'_def set_set_insert BelongsTo_def segment_start_def)
  show thesis
  proof (rule that [of space' t' seg])
    show "Extend cfg t space = Inr (freelist_head space', t', space')" by (rule ext)
    show "seg \<noteq> 0" by (rule n0)
    show "seg \<notin> set (segments space)" by (rule notin)
    show "segments space' = set_insert seg (segments space)" by (simp add: space'_def)
    show "freelist_head space' = \<lparr>next' = first_entry cfg seg, length' = of_nat ?k\<rparr>"
      by (simp add: space'_def h_def first_def)
    show "unat (length' (freelist_head space')) = ?k"
      using se(7) by (simp add: space'_def h_def)
    show "vas t' = Some (v\<lparr>vas_pages := (vas_pages v)(a \<mapsto> kReadWrite)\<rparr>)"
      by (simp add: t'_def v'_def)
    show "segment_start cfg v seg = a" by (rule st)
    show "a \<notin> dom (vas_pages v)" by (rule fresh)
    show "free_entries cfg t' space' = map of_nat [unat seg * ?k ..< unat seg * ?k + ?k]"
      using fe by (simp add: f_def)
    show "mem t' = (Extend_loop cfg (first_entry cfg seg) (last_entry cfg seg) (mem t))
           (last_entry cfg seg := MakeFreelistEntry cfg
              (Extend_loop cfg (first_entry cfg seg) (last_entry cfg seg) (mem t) (last_entry cfg seg)) 0)"
      by (simp add: t'_def m2_def m1_def first_def lst_def)
    show "space_ok cfg t' space'" by (rule sok')
    show "mutex space'" using held by (simp add: space'_def)
  qed
qed

lemma space_ok_mutex [simp]: "space_ok cfg t (space\<lparr>mutex := b\<rparr>) = space_ok cfg t space"
  by (simp add: space_ok_def freelist_ok_def free_entries_def BelongsTo_def cong: option.case_cong)

lemma avail_mutex [simp]: "avail cfg t (space\<lparr>mutex := b\<rparr>) = avail cfg t space"
  by (simp add: avail_def free_entries_def)

lemma pop_step:
  fixes cfg :: "'e Cfg" and t :: "'e Table"
  assumes inv: "table_inv cfg t space" and ne: "length' (freelist_head space) \<noteq> 0"
  defines "i \<equiv> next' (freelist_head space)"
  defines "space' \<equiv> space\<lparr>freelist_head :=
      \<lparr>next' = GetNextFreelistEntryIndex cfg (mem t i), length' = length' (freelist_head space) - 1\<rparr>\<rparr>"
  shows "TryAllocateEntryFromFreelist cfg t space (freelist_head space) = Inr (True, space')"
    and "free_entries cfg t space = i # free_entries cfg t space'"
    and "table_inv cfg t space'"
    and "i \<noteq> 0" and "Segment_Containing cfg i \<in> set (segments space)"
proof -
  let ?h = "freelist_head space"
  from inv have sok: "space_ok cfg t space" and nm: "\<not> mutex space"
    by (simp_all add: table_inv_def)
  from ne have len: "unat (length' ?h) = Suc (unat (length' ?h - 1))"
    by (simp add: unat_minus_one unat_gt_0)
  show fe: "free_entries cfg t space = i # free_entries cfg t space'"
    unfolding free_entries_def by (subst len) (simp add: space'_def i_def)
  from sok have fok: "freelist_ok cfg t space"
    by (simp add: space_ok_def)
  with fe show i0: "i \<noteq> 0" and ic: "Segment_Containing cfg i \<in> set (segments space)"
    by (simp_all add: freelist_ok_def)
  have d1: "1 < length' ?h \<longrightarrow> length' ?h - 1 \<noteq> 0"
    by auto
  show "TryAllocateEntryFromFreelist cfg t space ?h = Inr (True, space')"
    using ne nm ic d1
    by (simp add: TryAllocateEntryFromFreelist_def is_empty_def Contains_def DCHECK_def Let_def
        compare_exchange_strong_def space'_def i_def)
  have "freelist_ok cfg t space'"
    using fok unfolding freelist_ok_def fe
    by (subst (asm) len) (auto simp: space'_def i_def)
  with sok have "space_ok cfg t space'"
    by (simp add: space_ok_def space'_def BelongsTo_def cong: option.case_cong)
  with nm show "table_inv cfg t space'"
    by (simp add: table_inv_def space'_def)
qed

lemma table_inv_vas:
  assumes "table_inv cfg t space"
  obtains v where "vas t = Some v" "base t = vas_base v" "base t \<noteq> 0"
  using assms by (auto simp: table_inv_def space_ok_def split: option.splits)

lemma table_inv_initialized:
  assumes "table_inv cfg t space"
  shows "DCHECK_initialized t True k = k" and "BelongsTo space t"
  using assms
  by (auto simp: table_inv_def space_ok_def DCHECK_initialized_def is_initialized_def DCHECK_def
      split: option.splits)

lemma AllocateEntry_load_nonempty:
  assumes "length' (freelist_head space) \<noteq> 0"
  shows "AllocateEntry_load cfg t space = Inr (freelist_head space, t, space)"
  using assms by (simp add: AllocateEntry_load_def is_empty_def)

lemma AllocateEntry_load_OOM:
  assumes inv: "table_inv cfg t space" and e: "length' (freelist_head space) = 0"
    and v: "vas t = Some v" and a: "AllocatePages cfg v kNoHint kReadWrite = 0"
  shows "AllocateEntry_load cfg t space = Inl FatalProcessOutOfMemory"
proof -
  from inv have "\<not> mutex space"
    by (simp add: table_inv_def)
  moreover have "Extend cfg t (space\<lparr>mutex := True\<rparr>) = Inl FatalProcessOutOfMemory"
    using e AllocateTableSegment_OOM [OF v a]
    by (simp add: Extend_def freelist_length_def DCHECK_def)
  ultimately show ?thesis
    using e by (simp add: AllocateEntry_load_def is_empty_def Let_def)
qed

lemma AllocateEntry_load_extend:
  fixes cfg :: "'e Cfg" and t :: "'e Table"
  assumes inv: "table_inv cfg t space" and e: "length' (freelist_head space) = 0"
    and v: "vas t = Some v" and a: "AllocatePages cfg v kNoHint kReadWrite \<noteq> 0"
  obtains t1 space1 where
    "AllocateEntry_load cfg t space = Inr (freelist_head space1, t1, space1)"
    and "length' (freelist_head space1) \<noteq> 0" and "table_inv cfg t1 space1"
    and "avail cfg t1 space1 \<subseteq> avail cfg t space"
    and "set (segments space) \<subseteq> set (segments space1)"
proof -
  from inv have sok: "space_ok cfg t space" and nm: "\<not> mutex space"
    by (simp_all add: table_inv_def)
  then have ok: "cfg_ok cfg"
    by (simp add: space_ok_def)
  let ?k = "kEntriesPerSegment cfg"
  from ok have k: "0 < ?k"
    by (simp add: cfg_ok_def)
  let ?sp = "space\<lparr>mutex := True\<rparr>"
  have sok1: "space_ok cfg t ?sp" using sok by simp
  have e1: "length' (freelist_head ?sp) = 0" using e by simp
  obtain seg t' space' where
    ext: "Extend cfg t ?sp = Inr (freelist_head space', t', space')"
    and n0: "seg \<noteq> 0" and notin: "seg \<notin> set (segments ?sp)"
    and segs: "segments space' = set_insert seg (segments ?sp)"
    and len: "unat (length' (freelist_head space')) = ?k"
    and fe: "free_entries cfg t' space' = map of_nat [unat seg * ?k ..< unat seg * ?k + ?k]"
    and sok': "space_ok cfg t' space'"
    by (rule Extend_step [OF sok1 _ e1 v refl a]) simp
  let ?s1 = "space'\<lparr>mutex := False\<rparr>"
  have load: "AllocateEntry_load cfg t space = Inr (freelist_head ?s1, t', ?s1)"
    using e nm ext len by (simp add: AllocateEntry_load_def is_empty_def Let_def DCHECK_def)
  have ne: "length' (freelist_head ?s1) \<noteq> 0"
    using len k by auto
  have inv1: "table_inv cfg t' ?s1"
    using sok' by (simp add: table_inv_def)
  from sok' have bound: "unat seg < kReservationSize cfg div kSegmentSize cfg"
    by (simp add: space_ok_def segs set_set_insert)
  have sub: "set (segments space) \<subseteq> set (segments ?s1)"
    by (auto simp: segs set_set_insert)
  have av: "avail cfg t' ?s1 \<subseteq> avail cfg t space"
  proof
    fix j assume "j \<in> avail cfg t' ?s1"
    then have "j \<in> avail cfg t' space'"
      by simp
    then consider "j \<in> set (free_entries cfg t' space')"
      | "Segment_Containing cfg j \<notin> set (segments space')"
      by (auto simp: avail_def)
    then show "j \<in> avail cfg t space"
    proof cases
      case 1
      then obtain x where x: "j = of_nat x" "unat seg * ?k \<le> x" "x < unat seg * ?k + ?k"
        unfolding fe by auto
      from segment_entry_facts(2) [OF ok n0 bound x(2) x(3)] x(1) notin
      show ?thesis by (simp add: avail_def)
    next
      case 2
      then show ?thesis by (simp add: avail_def segs set_set_insert)
    qed
  qed
  show thesis
    by (rule that [OF load ne inv1 av sub])
qed

lemma AllocateEntry_from_load:
  fixes cfg :: "'e Cfg" and t :: "'e Table"
  assumes load: "AllocateEntry_load cfg t space = Inr (freelist_head space1, t1, space1)"
    and inv0: "table_inv cfg t space" and inv1: "table_inv cfg t1 space1"
    and ne: "length' (freelist_head space1) \<noteq> 0"
  obtains i space2 where
    "AllocateEntry cfg t space = Inr (i, t1, space2)"
    and "i \<noteq> 0" and "Contains cfg space2 i = Inr True" and "table_inv cfg t1 space2"
    and "i \<in> avail cfg t1 space1" and "i \<notin> avail cfg t1 space2"
    and "avail cfg t1 space2 \<subseteq> avail cfg t1 space1"
    and "segments space2 = segments space1"
proof -
  define i where "i = next' (freelist_head space1)"
  define space2 where "space2 = space1\<lparr>freelist_head :=
      \<lparr>next' = GetNextFreelistEntryIndex cfg (mem t1 i),
       length' = length' (freelist_head space1) - 1\<rparr>\<rparr>"
  note ps = pop_step [OF inv1 ne, folded i_def, folded space2_def]
  have segs: "segments space2 = segments space1"
    by (simp add: space2_def)
  from ps(3) have nm2: "\<not> mutex space2"
    by (simp add: table_inv_def)
  have body: "AllocateEntry_body cfg t space = Inr (True, freelist_head space1, t1, space2)"
    using load ps(1) by (simp add: AllocateEntry_body_def)
  then have loop: "AllocateEntry_loop cfg t space = Inr (freelist_head space1, t1, space2)"
    by (subst AllocateEntry_loop.simps) simp
  have cont: "Contains cfg space2 i = Inr True"
    using ps(5) nm2 by (simp add: Contains_def segs)
  have res: "AllocateEntry cfg t space = Inr (i, t1, space2)"
    using loop cont ps(4) table_inv_initialized [OF inv0]
    by (simp add: AllocateEntry_def DCHECK_def Let_def i_def)
  from inv1 have "distinct (free_entries cfg t1 space1)"
    by (simp add: table_inv_def space_ok_def freelist_ok_def)
  with ps(2) have notin: "i \<notin> set (free_entries cfg t1 space2)"
    by simp
  have in1: "i \<in> avail cfg t1 space1"
    using ps(2) by (simp add: avail_def)
  have out2: "i \<notin> avail cfg t1 space2"
    using notin ps(5) by (simp add: avail_def segs)
  have sub: "avail cfg t1 space2 \<subseteq> avail cfg t1 space1"
    using ps(2) by (auto simp: avail_def segs)
  show thesis
    by (rule that [OF res ps(4) cont ps(3) in1 out2 sub segs])
qed

lemma AllocateEntry_step:
  fixes cfg :: "'e Cfg" and t :: "'e Table"
  assumes inv: "table_inv cfg t space"
  shows "case AllocateEntry cfg t space of
           Inl e \<Rightarrow> e = FatalProcessOutOfMemory \<and> is_empty (freelist_head space) \<and>
             (\<exists>v. vas t = Some v \<and> AllocatePages cfg v kNoHint kReadWrite = 0)
         | Inr (i, t', space') \<Rightarrow>
             i \<noteq> 0 \<and> Contains cfg space' i = Inr True \<and> table_inv cfg t' space' \<and>
             i \<in> avail cfg t space \<and> i \<notin> avail cfg t' space' \<and>
             avail cfg t' space' \<subseteq> avail cfg t space \<and>
             set (segments space) \<subseteq> set (segments space')"
proof -
  obtain v where v: "vas t = Some v"
    using inv by (rule table_inv_vas)
  show ?thesis
  proof (cases "length' (freelist_head space) = 0")
    case False
    then have load: "AllocateEntry_load cfg t space = Inr (freelist_head space, t, space)"
      by (rule AllocateEntry_load_nonempty)
    obtain i space2 where "AllocateEntry cfg t space = Inr (i, t, space2)"
      and "i \<noteq> 0" and "Contains cfg space2 i = Inr True" and "table_inv cfg t space2"
      and "i \<in> avail cfg t space" and "i \<notin> avail cfg t space2"
      and "avail cfg t space2 \<subseteq> avail cfg t space"
      and "segments space2 = segments space"
      by (rule AllocateEntry_from_load [OF load inv inv False])
    then show ?thesis
      by simp
  next
    case True
    show ?thesis
    proof (cases "AllocatePages cfg v kNoHint kReadWrite = 0")
      case a: True
      have "AllocateEntry_load cfg t space = Inl FatalProcessOutOfMemory"
        by (rule AllocateEntry_load_OOM [OF inv True v a])
      then have "AllocateEntry_loop cfg t space = Inl FatalProcessOutOfMemory"
        by (subst AllocateEntry_loop.simps) (simp add: AllocateEntry_body_def)
      then have "AllocateEntry cfg t space = Inl FatalProcessOutOfMemory"
        using table_inv_initialized [OF inv] by (simp add: AllocateEntry_def DCHECK_def)
      with True v a show ?thesis
        by (simp add: is_empty_def)
    next
      case a: False
      obtain t1 space1 where
        load: "AllocateEntry_load cfg t space = Inr (freelist_head space1, t1, space1)"
        and ne: "length' (freelist_head space1) \<noteq> 0" and inv1: "table_inv cfg t1 space1"
        and av: "avail cfg t1 space1 \<subseteq> avail cfg t space"
        and sub: "set (segments space) \<subseteq> set (segments space1)"
        by (rule AllocateEntry_load_extend [OF inv True v a])
      obtain i space2 where "AllocateEntry cfg t space = Inr (i, t1, space2)"
        and "i \<noteq> 0" and "Contains cfg space2 i = Inr True" and "table_inv cfg t1 space2"
        and "i \<in> avail cfg t1 space1" and "i \<notin> avail cfg t1 space2"
        and "avail cfg t1 space2 \<subseteq> avail cfg t1 space1"
        and "segments space2 = segments space1"
        by (rule AllocateEntry_from_load [OF load inv inv1 ne])
      with av sub show ?thesis
        by auto
    qed
  qed
qed

lemma AllocateEntries_distinct_aux:
  fixes cfg :: "'e Cfg" and t :: "'e Table"
  assumes "table_inv cfg t space"
  shows "case AllocateEntries cfg n t space of
           Inl e \<Rightarrow> e = FatalProcessOutOfMemory
         | Inr (idxs, t', space') \<Rightarrow>
             length idxs = n \<and> distinct idxs \<and> 0 \<notin> set idxs \<and>
             set idxs \<subseteq> avail cfg t space \<and>
             (\<forall>i \<in> set idxs. Contains cfg space' i = Inr True) \<and>
             set (segments space) \<subseteq> set (segments space') \<and> table_inv cfg t' space'"
  using assms
proof (induction n arbitrary: t space)
  case 0
  then show ?case by simp
next
  case (Suc n)
  note step = AllocateEntry_step [OF Suc.prems]
  show ?case
  proof (cases "AllocateEntry cfg t space")
    case (Inl e)
    with step show ?thesis by simp
  next
    case (Inr r)
    obtain i t1 space1 where r: "r = (i, t1, space1)"
      by (cases r)
    from step Inr r have i0: "i \<noteq> 0" and c1: "Contains cfg space1 i = Inr True"
      and inv1: "table_inv cfg t1 space1" and iin: "i \<in> avail cfg t space"
      and iout: "i \<notin> avail cfg t1 space1" and av: "avail cfg t1 space1 \<subseteq> avail cfg t space"
      and sub: "set (segments space) \<subseteq> set (segments space1)"
      by simp_all
    note IH = Suc.IH [OF inv1]
    show ?thesis
    proof (cases "AllocateEntries cfg n t1 space1")
      case (Inl e)
      with IH Inr r show ?thesis by simp
    next
      case rest: (Inr r')
      obtain idxs t2 space2 where r': "r' = (idxs, t2, space2)"
        by (cases r')
      from IH rest r' have len: "length idxs = n" and d: "distinct idxs" and z: "0 \<notin> set idxs"
        and av2: "set idxs \<subseteq> avail cfg t1 space1"
        and c2: "\<forall>j \<in> set idxs. Contains cfg space2 j = Inr True"
        and sub2: "set (segments space1) \<subseteq> set (segments space2)"
        and inv2: "table_inv cfg t2 space2"
        by simp_all
      from inv2 have nm2: "\<not> mutex space2"
        by (simp add: table_inv_def)
      from c1 sub2 nm2 have "Contains cfg space2 i = Inr True"
        by (auto simp: Contains_def split: if_splits)
      with Inr r rest r' len d z av2 c2 sub2 inv2 i0 iin iout av sub show ?thesis
        by auto
    qed
  qed
qed

subsection \<open>The bounded allocation, teardown and initialization\<close>

lemma AllocateEntryBelow_result:
  fixes cfg :: "'e Cfg" and t :: "'e Table"
  assumes inv: "table_inv cfg t space"
  defines "h \<equiv> freelist_head space"
  shows "AllocateEntryBelow cfg t space T =
     Inr (if is_empty h \<or> T \<le> next' h then (0, space)
          else (next' h, space\<lparr>freelist_head :=
                  \<lparr>next' = GetNextFreelistEntryIndex cfg (mem t (next' h)),
                   length' = length' h - 1\<rparr>\<rparr>))"
proof (cases "is_empty h \<or> T \<le> next' h")
  case True
  then have "AllocateEntryBelow_body cfg t space T = Inr None"
    by (simp add: AllocateEntryBelow_body_def h_def)
  then have "AllocateEntryBelow_loop cfg t space T = Inr None"
    by (subst AllocateEntryBelow_loop.simps) simp
  with True show ?thesis
    using table_inv_initialized [OF inv] by (simp add: AllocateEntryBelow_def)
next
  case False
  then have ne: "length' (freelist_head space) \<noteq> 0" and lt: "next' h < T"
    by (auto simp: is_empty_def h_def not_le)
  define space' where "space' = space\<lparr>freelist_head :=
      \<lparr>next' = GetNextFreelistEntryIndex cfg (mem t (next' h)), length' = length' h - 1\<rparr>\<rparr>"
  note ps = pop_step [OF inv ne, folded h_def, folded space'_def]
  from ps(3) have nm: "\<not> mutex space'"
    by (simp add: table_inv_def)
  have "AllocateEntryBelow_body cfg t space T = Inr (Some (True, h, space'))"
    using False ps(1) by (simp add: AllocateEntryBelow_body_def h_def)
  then have "AllocateEntryBelow_loop cfg t space T = Inr (Some (h, space'))"
    by (subst AllocateEntryBelow_loop.simps) simp
  moreover have "Contains cfg space' (next' h) = Inr True"
    using ps(5) nm by (simp add: Contains_def space'_def)
  ultimately show ?thesis
    using False lt ps(4) table_inv_initialized [OF inv]
    by (simp add: AllocateEntryBelow_def DCHECK_def Let_def space'_def)
qed

lemma Extend_OOM:
  assumes "mutex space" and "length' (freelist_head space) = 0"
    and "vas t = Some v" and "AllocatePages cfg v kNoHint kReadWrite = 0"
  shows "Extend cfg t space = Inl FatalProcessOutOfMemory"
  using assms AllocateTableSegment_OOM [of t v cfg]
  by (simp add: Extend_def freelist_length_def DCHECK_def)

lemma div_eq_iff_range:
  fixes x k q :: nat
  assumes "0 < k"
  shows "x div k = q \<longleftrightarrow> q * k \<le> x \<and> x < q * k + k"
proof
  assume "x div k = q"
  then show "q * k \<le> x \<and> x < q * k + k"
    using assms dividend_less_div_times [of k x] by (auto simp: add.commute)
next
  assume "q * k \<le> x \<and> x < q * k + k"
  then show "x div k = q"
    by (intro div_nat_eqI) (simp_all add: mult.commute)
qed

lemma segment_range:
  assumes ok: "cfg_ok cfg" and n0: "seg \<noteq> 0"
    and bound: "unat seg < kReservationSize cfg div kSegmentSize cfg"
  shows "Segment_Containing cfg i = seg \<longleftrightarrow>
     first_entry cfg seg \<le> i \<and> i \<le> last_entry cfg seg"
proof -
  let ?k = "kEntriesPerSegment cfg"
  note se = segment_entries [OF ok n0 bound]
  have "unat i < 2 ^ LENGTH(32)"
    by (rule unsigned_less)
  then have "unat i < 2 ^ 32"
    by simp
  then have "unat i div ?k < 2 ^ 32"
    by (rule le_less_trans [OF div_le_dividend])
  then have u: "unat (Segment_Containing cfg i) = unat i div ?k"
    by (simp add: Segment_Containing_def unat_of_nat32)
  have "Segment_Containing cfg i = seg \<longleftrightarrow> unat i div ?k = unat seg"
    by (simp add: word_unat_eq_iff u)
  also have "\<dots> \<longleftrightarrow> unat seg * ?k \<le> unat i \<and> unat i < unat seg * ?k + ?k"
    using se(4) by (rule div_eq_iff_range)
  also have "\<dots> \<longleftrightarrow> first_entry cfg seg \<le> i \<and> i \<le> last_entry cfg seg"
    using se(1) se(2) se(4) by (auto simp: word_le_nat_alt)
  finally show ?thesis .
qed

lemma segment_start_ne_base:
  assumes ok: "cfg_ok cfg" and n0: "seg \<noteq> 0"
    and bound: "unat seg < kReservationSize cfg div kSegmentSize cfg"
  shows "segment_start cfg v seg \<noteq> vas_base v"
proof -
  let ?S = "kSegmentSize cfg" and ?R = "kReservationSize cfg"
  from ok have S: "0 < ?S" and R: "?R \<le> 2 ^ 32"
    by (simp_all add: cfg_ok_def)
  from bound have "unat seg * ?S < (?R div ?S) * ?S"
    using S by simp
  also have "\<dots> \<le> ?R"
    by simp
  finally have "unat seg * ?S < 2 ^ 32"
    using R by (rule less_le_trans)
  then have "unat (Segment_offset cfg seg) = unat seg * ?S"
    unfolding Segment_offset_def by (rule unat_of_nat32)
  moreover from n0 have "0 < unat seg"
    by (simp add: unat_gt_0)
  ultimately have "0 < unat (Segment_offset cfg seg)"
    using S by simp
  then have "0 < unat (ucast (Segment_offset cfg seg) :: Address)"
    by (simp only: unat_ucast_up)
  then have "(ucast (Segment_offset cfg seg) :: Address) \<noteq> 0"
    by (simp add: unat_gt_0)
  then show ?thesis
    by (simp add: segment_start_def)
qed

lemma FreeTableSegments_keeps_segment_zero:
  fixes cfg :: "'e Cfg" and t :: "'e Table"
  assumes ok: "cfg_ok cfg" and v: "vas t = Some v"
    and seg0: "vas_pages v (vas_base v) = Some kRead"
    and segs: "\<forall>n \<in> set xs. n \<noteq> 0 \<and> unat n < kReservationSize cfg div kSegmentSize cfg"
  shows "\<exists>t' v'. FreeTableSegments cfg t xs = Inr t' \<and> vas t' = Some v' \<and>
           vas_base v' = vas_base v \<and> vas_pages v' (vas_base v') = Some kRead \<and>
           base t' = base t"
  using v seg0 segs
proof (induction xs arbitrary: t v)
  case Nil
  then show ?case by simp
next
  case (Cons n xs)
  from Cons.prems(3) have n0: "n \<noteq> 0"
    and bound: "unat n < kReservationSize cfg div kSegmentSize cfg"
    by simp_all
  define v1 where "v1 = v\<lparr>vas_pages := (vas_pages v)(segment_start cfg v n := None)\<rparr>"
  define t1 where "t1 = t\<lparr>vas := Some v1\<rparr>"
  have free: "FreeTableSegment cfg t n = Inr t1"
    using n0 Cons.prems(1)
    by (simp add: FreeTableSegment_def DCHECK_def Let_def t1_def v1_def segment_start_def)
  have ne: "segment_start cfg v n \<noteq> vas_base v"
    by (rule segment_start_ne_base [OF ok n0 bound])
  have "\<exists>t' v'. FreeTableSegments cfg t1 xs = Inr t' \<and> vas t' = Some v' \<and>
           vas_base v' = vas_base v1 \<and> vas_pages v' (vas_base v') = Some kRead \<and>
           base t' = base t1"
    using Cons.prems ne by (intro Cons.IH) (simp_all add: t1_def v1_def)
  with free show ?case
    by (simp add: t1_def v1_def)
qed

lemma TearDownSpace_ok:
  fixes cfg :: "'e Cfg" and t :: "'e Table"
  assumes inv: "table_inv cfg t space"
  shows "\<exists>t' v'. TearDownSpace cfg t space = Inr (t', space\<lparr>segments := []\<rparr>) \<and>
           vas t' = Some v' \<and> vas_pages v' (vas_base v') = Some kRead"
proof -
  from inv obtain v where v: "vas t = Some v"
    by (rule table_inv_vas)
  from inv v have ok: "cfg_ok cfg" and seg0: "vas_pages v (vas_base v) = Some kRead"
    and segs: "\<forall>n \<in> set (segments space).
       n \<noteq> 0 \<and> unat n < kReservationSize cfg div kSegmentSize cfg"
    by (auto simp: table_inv_def space_ok_def)
  from FreeTableSegments_keeps_segment_zero [OF ok v seg0 segs]
  obtain t' v' where "FreeTableSegments cfg t (segments space) = Inr t'"
    and "vas t' = Some v'" and "vas_pages v' (vas_base v') = Some kRead"
    by blast
  then show ?thesis
    by (simp add: TearDownSpace_def DCHECK_def table_inv_initialized [OF inv])
qed

lemma InitializeTable_segment_zero:
  assumes "InitializeTable cfg t = Inr t'"
  shows "\<exists>v. vas t' = Some v \<and> base t' = vas_base v \<and> vas_pages v = [vas_base v \<mapsto> kRead]"
  using assms
  by (auto simp: InitializeTable_def DCHECK_initialized_def DCHECK_def Let_def
      split: sum.splits option.splits if_splits)

lemma InitializeTable_inv:
  assumes ok: "cfg_ok cfg" and init: "InitializeTable cfg t = Inr t'" and b: "base t' \<noteq> 0"
    and sp: "InitializeSpace t' empty_Space = Inr space"
  shows "table_inv cfg t' space"
proof -
  from InitializeTable_segment_zero [OF init] obtain v where
    "vas t' = Some v" "base t' = vas_base v" "vas_pages v = [vas_base v \<mapsto> kRead]"
    by blast
  moreover from sp have "space = empty_Space\<lparr>owning_table := Some (this t')\<rparr>"
    by (simp add: InitializeSpace_def DCHECK_def split: if_splits)
  ultimately show ?thesis
    using ok b
    by (simp add: table_inv_def space_ok_def BelongsTo_def freelist_ok_def free_entries_def
        empty_Space_def)
qed

subsection \<open>The example table satisfies the invariant\<close>

lemma unat_of_nat64: "n < 2 ^ 64 \<Longrightarrow> unat (of_nat n :: Address) = n"
  by (simp add: unat_of_nat)

lemma first_fit_page_ok:
  fixes cfg :: "'e Cfg"
  assumes S: "kSegmentSize cfg = S" and R: "kReservationSize cfg = R"
    and S0: "0 < S" and R32: "R \<le> 2 ^ 32"
    and a: "first_fit S R v hint perm = a" and a0: "a \<noteq> 0"
  shows "page_ok cfg v a"
proof (cases "hint \<noteq> 0 \<and> vas_pages v hint = None \<and> unat (hint - vas_base v) mod S = 0 \<and>
         unat (hint - vas_base v) + S \<le> R")
  case True
  with a have "a = hint"
    by (simp add: first_fit_def)
  with True S R show ?thesis
    by (simp add: page_ok_def domIff)
next
  case False
  let ?xs = "filter (\<lambda>a. a \<noteq> 0 \<and> vas_pages v a = None)
                  (map (\<lambda>j. vas_base v + of_nat (j * S)) [0..<R div S])"
  from False a a0 obtain rest where "?xs = a # rest"
    by (auto simp: first_fit_def split: list.splits)
  then have "a \<in> set ?xs"
    by simp
  then obtain j where j: "j < R div S" and aj': "a = vas_base v + of_nat (j * S)"
    and free: "vas_pages v a = None"
    by auto
  define n where "n = j * S"
  from aj' have aj: "a = vas_base v + of_nat n"
    by (simp only: n_def)
  from j have "Suc j * S \<le> (R div S) * S"
    by (intro mult_le_mono1) simp
  also have "\<dots> \<le> R"
    by simp
  finally have fit: "n + S \<le> R"
    by (simp add: n_def)
  with S0 have "n < R"
    by linarith
  from this R32 have "n < 2 ^ 32"
    by (rule less_le_trans)
  moreover have "(2::nat) ^ 32 < 2 ^ 64"
    by simp
  ultimately have "n < 2 ^ 64"
    by (rule less_trans)
  then have "unat (of_nat n :: Address) = n"
    by (rule unat_of_nat64)
  moreover have "a - vas_base v = of_nat n"
    by (simp add: aj)
  ultimately have off: "unat (a - vas_base v) = n"
    by simp
  have "n mod S = 0"
    by (simp add: n_def)
  then show ?thesis
    using free fit off S R by (simp add: page_ok_def domIff)
qed

lemma example_cfg_ok: "cfg_ok example_cfg"
proof -
  have "page_ok example_cfg v (first_fit 32 128 v hint perm)"
    if "first_fit 32 128 v hint perm \<noteq> 0" for v hint perm
    using _ _ _ _ refl that by (rule first_fit_page_ok) (simp_all add: example_cfg_def)
  then show ?thesis
    by (simp add: cfg_ok_def example_cfg_def)
qed

lemma example_InitializeTable: "InitializeTable example_cfg empty_Table = Inr example_table"
  by (simp add: InitializeTable_def example_cfg_def empty_Table_def example_table_def
      DCHECK_initialized_def is_initialized_def DCHECK_def first_fit_def)

lemma example_InitializeSpace: "InitializeSpace example_table empty_Space = Inr example_space"
  by (simp add: InitializeSpace_def example_table_def empty_Space_def example_space_def DCHECK_def)

lemma example_inv: "table_inv example_cfg example_table example_space"
  by (rule InitializeTable_inv [OF example_cfg_ok example_InitializeTable _ example_InitializeSpace])
    (simp add: example_table_def)

lemma example_AllocateEntries:
  "map_sum id fst (AllocateEntries example_cfg 6 example_table example_space) =
     Inr [4, 5, 6, 7, 8, 9]"
  by code_simp

lemma stuck_free_entries: "free_entries example_cfg stuck_table stuck_space = [6, 5]"
  by code_simp

lemma stuck_freelist_end:
  "freelist_end example_cfg (mem stuck_table) (next' (freelist_head stuck_space))
     (unat (length' (freelist_head stuck_space))) = 0"
  by code_simp

lemma stuck_inv: "table_inv example_cfg stuck_table stuck_space"
proof -
  have "freelist_ok example_cfg stuck_table stuck_space"
    unfolding freelist_ok_def stuck_free_entries stuck_freelist_end
    by (simp add: stuck_space_def example_cfg_def Segment_Containing_def)
  then show ?thesis
    using example_cfg_ok
    by (simp add: table_inv_def space_ok_def stuck_table_def stuck_space_def BelongsTo_def
        segment_start_def Segment_offset_def example_cfg_def)
qed

section \<open>Facts about the marking visitor\<close>

lemma loads_append [simp]: "loads (xs @ ys) = loads xs @ loads ys"
  by (simp add: loads_def)

lemma loads_simps [simp]:
  "loads [] = []" "loads (c # cs) = load_of c @ loads cs"
  by (simp_all add: loads_def)

lemma pushes_append [simp]: "pushes x (xs @ ys) = pushes x xs + pushes x ys"
  by (simp add: pushes_def)

lemma pushes_simps [simp]:
  "pushes x [] = 0"
  "pushes x (c # cs) = (if c = Push_marking_worklist x then 1 else 0) + pushes x cs"
  by (simp_all add: pushes_def)

lemma calls_emit [simp]: "calls (emit c v) = calls v @ [c]"
  and marking_state_emit [simp]: "marking_state (emit c v) = marking_state v"
  by (simp_all add: emit_def)

lemma marks_step_refl: "marks_step heap v v []"
  by (simp add: marks_step_def)

lemma marks_step_emit:
  assumes "\<And>x. c \<noteq> Push_marking_worklist x"
  shows "marks_step heap v (emit c v) [c]"
  using assms by (simp add: marks_step_def)

lemma marks_step_trans:
  assumes "marks_step heap v v' n1" and "marks_step heap v' v'' n2"
  shows "marks_step heap v v'' (n1 @ n2)"
  unfolding marks_step_def
proof (intro conjI allI)
  from assms show "calls v'' = calls v @ n1 @ n2"
    by (simp add: marks_step_def)
  show "IsMarked heap (marking_state v) x \<longrightarrow> IsMarked heap (marking_state v'') x" for x
    using assms by (simp add: marks_step_def)
  fix x
  from assms have p1: "pushes x n1 \<le> 1" and p2: "pushes x n2 \<le> 1"
    and m1: "0 < pushes x n1 \<Longrightarrow> \<not> IsMarked heap (marking_state v) x \<and> IsMarked heap (marking_state v') x"
    and m2: "0 < pushes x n2 \<Longrightarrow> \<not> IsMarked heap (marking_state v') x \<and> IsMarked heap (marking_state v'') x"
    and mono1: "IsMarked heap (marking_state v) x \<Longrightarrow> IsMarked heap (marking_state v') x"
    and mono2: "IsMarked heap (marking_state v') x \<Longrightarrow> IsMarked heap (marking_state v'') x"
    by (simp_all add: marks_step_def)
  have "pushes x n1 = 0 \<or> pushes x n2 = 0"
    using m1 m2 by auto
  with p1 p2 show "pushes x (n1 @ n2) \<le> 1"
    by auto
  show "0 < pushes x (n1 @ n2) \<longrightarrow>
      \<not> IsMarked heap (marking_state v) x \<and> IsMarked heap (marking_state v'') x"
    using m1 m2 mono1 mono2 by auto
qed

lemma pointer_step_refl: "pointer_step heap v v []"
  unfolding pointer_step_def by (rule exI [of _ "[]"]) (simp add: marks_step_refl)

lemma pointer_step_marks:
  assumes "pointer_step heap v v' slots" and "marking_ok heap"
  obtains new where "calls v' = calls v @ new" and "loads new = slots"
    and "list_all is_pointer_visit_call new" and "marks_step heap v v' new"
  using assms unfolding pointer_step_def by blast

lemma pointer_step_trans:
  assumes "pointer_step heap v v' s1" and "pointer_step heap v' v'' s2"
  shows "pointer_step heap v v'' (s1 @ s2)"
proof -
  from assms obtain n1 n2 where a: "calls v' = calls v @ n1" "loads n1 = s1"
    "list_all is_pointer_visit_call n1" "calls v'' = calls v' @ n2" "loads n2 = s2"
    "list_all is_pointer_visit_call n2"
    and m: "marking_ok heap \<longrightarrow> marks_step heap v v' n1"
      "marking_ok heap \<longrightarrow> marks_step heap v' v'' n2"
    unfolding pointer_step_def by blast
  from m have "marking_ok heap \<longrightarrow> marks_step heap v v'' (n1 @ n2)"
    using marks_step_trans by blast
  with a show ?thesis
    unfolding pointer_step_def
    by (intro exI [of _ "n1 @ n2"]) simp
qed

lemma pointer_step_emit:
  assumes "\<And>x. c \<noteq> Push_marking_worklist x" and "is_pointer_visit_call c"
  shows "pointer_step heap v (emit c v) (load_of c)"
  unfolding pointer_step_def
  using assms by (intro exI [of _ "[c]"]) (simp add: marks_step_emit)

lemma MarkObject_calls:
  assumes "MarkObject heap v host object = Inr v'"
  shows "ReadOnlyHeap_Contains heap object \<or> heap_Contains heap object"
    and "marking_state v' = snd (TryMark heap (marking_state v) object)"
    and "calls v' = calls v @
      [SynchronizePageAccess object, AddStrongReferenceForReferenceSummarizer host object] @
      (if fst (TryMark heap (marking_state v) object)
       then Push_marking_worklist object #
            (if retaining_path_mode heap = kEnabled then [AddRetainer host object] else [])
       else [])"
  using assms
  by (auto simp: MarkObject_def DCHECK_Inr Let_def split: prod.splits if_splits)

lemma MarkObject_returns:
  assumes "ReadOnlyHeap_Contains heap object \<or> heap_Contains heap object"
  shows "\<exists>v'. MarkObject heap v host object = Inr v'"
  using assms by (auto simp: MarkObject_def DCHECK_def Let_def split: prod.splits)

lemma MarkObject_step:
  assumes m: "MarkObject heap v host object = Inr v'"
  shows "pointer_step heap v v' []"
proof -
  let ?new = "[SynchronizePageAccess object, AddStrongReferenceForReferenceSummarizer host object] @
      (if fst (TryMark heap (marking_state v) object)
       then Push_marking_worklist object #
            (if retaining_path_mode heap = kEnabled then [AddRetainer host object] else [])
       else [])"
  note mc = MarkObject_calls [OF m]
  have "marks_step heap v v' ?new" if ok: "marking_ok heap"
  proof -
    from ok have tm: "fst (TryMark heap (marking_state v) object) \<longleftrightarrow>
          \<not> IsMarked heap (marking_state v) object"
      and now: "IsMarked heap (marking_state v') object"
      and mono: "\<And>x. IsMarked heap (marking_state v) x \<Longrightarrow> IsMarked heap (marking_state v') x"
      unfolding mc(2) marking_ok_def by blast+
    show ?thesis
      unfolding marks_step_def using mc(3) tm now mono by auto
  qed
  moreover have "loads ?new = []" and "list_all is_pointer_visit_call ?new"
    by simp_all
  ultimately show ?thesis
    unfolding pointer_step_def using mc(3) by blast
qed

lemma ProcessStrongHeapObject_step:
  assumes p: "ProcessStrongHeapObject heap v host slot heap_object = Inr v'"
  shows "pointer_step heap v v' []"
proof -
  let ?v1 = "emit (SynchronizePageAccess heap_object) v"
  have s1: "pointer_step heap v ?v1 []"
    using pointer_step_emit [of "SynchronizePageAccess heap_object" heap v] by simp
  show ?thesis
  proof (cases "ShouldMarkObject heap heap_object")
    case False
    with p have "v' = ?v1"
      by (simp add: ProcessStrongHeapObject_def Let_def)
    with s1 show ?thesis by simp
  next
    case True
    with p obtain v2 where m: "MarkObject heap ?v1 host heap_object = Inr v2"
      and v': "v' = emit (RecordSlot host slot heap_object) v2"
      by (auto simp: ProcessStrongHeapObject_def Let_def split: sum.splits)
    have s2: "pointer_step heap ?v1 v2 []"
      by (rule MarkObject_step [OF m])
    have s3: "pointer_step heap v2 v' []"
      unfolding v' using pointer_step_emit [of "RecordSlot host slot heap_object" heap v2] by simp
    from pointer_step_trans [OF pointer_step_trans [OF s1 s2] s3] show ?thesis
      by simp
  qed
qed

lemma ProcessStrongHeapObject_returns:
  assumes "heap_ok heap"
  shows "\<exists>v'. ProcessStrongHeapObject heap v host slot heap_object = Inr v'"
proof -
  from assms have "ReadOnlyHeap_Contains heap heap_object \<or> heap_Contains heap heap_object"
    by (simp add: heap_ok_def)
  from MarkObject_returns [OF this] show ?thesis
    by (auto simp: ProcessStrongHeapObject_def Let_def split: sum.splits) (metis sum.distinct(1))
qed

lemma ProcessWeakHeapObject_step:
  assumes p: "ProcessWeakHeapObject heap v host slot heap_object = Inr v'"
  shows "pointer_step heap v v' []"
proof -
  let ?v1 = "emit (SynchronizePageAccess heap_object) v"
  let ?v2 = "emit (Push_weak_references host slot) ?v1"
  have s1: "pointer_step heap v ?v1 []"
    using pointer_step_emit [of "SynchronizePageAccess heap_object" heap v] by simp
  have s2: "pointer_step heap ?v1 (emit (RecordSlot host slot heap_object) ?v1) []"
    using pointer_step_emit [of "RecordSlot host slot heap_object" heap ?v1] by simp
  have s3: "pointer_step heap ?v1 ?v2 []"
    using pointer_step_emit [of "Push_weak_references host slot" heap ?v1] by simp
  have s4: "pointer_step heap ?v2
      (emit (AddWeakReferenceForReferenceSummarizer host heap_object) ?v2) []"
    using pointer_step_emit [of "AddWeakReferenceForReferenceSummarizer host heap_object" heap ?v2]
    by simp
  from p consider "v' = ?v1" | "v' = emit (RecordSlot host slot heap_object) ?v1"
    | "v' = emit (AddWeakReferenceForReferenceSummarizer host heap_object) ?v2"
    by (auto simp: ProcessWeakHeapObject_def Let_def split: if_splits)
  then show ?thesis
  proof cases
    case 1
    with s1 show ?thesis by simp
  next
    case 2
    with pointer_step_trans [OF s1 s2] show ?thesis by simp
  next
    case 3
    with pointer_step_trans [OF s1 pointer_step_trans [OF s3 s4]] show ?thesis by simp
  qed
qed

lemma VisitPointersImpl_slot_step:
  assumes p: "VisitPointersImpl_slot heap w v host slot = Inr v'"
  shows "pointer_step heap v v' [slot]"
proof -
  let ?v1 = "emit (Load slot) v"
  have s1: "pointer_step heap v ?v1 [slot]"
    using pointer_step_emit [of "Load slot" heap v] by simp
  have "pointer_step heap ?v1 v' []"
  proof (cases "Relaxed_Load heap slot")
    case (StrongRef h)
    with p have "ProcessStrongHeapObject heap ?v1 host slot h = Inr v'"
      by (simp add: VisitPointersImpl_slot_def Let_def)
    then show ?thesis
      by (rule ProcessStrongHeapObject_step)
  next
    case (WeakRef h)
    show ?thesis
    proof (cases w)
      case True
      with p WeakRef have "ProcessWeakHeapObject heap ?v1 host slot h = Inr v'"
        by (simp add: VisitPointersImpl_slot_def Let_def)
      then show ?thesis
        by (rule ProcessWeakHeapObject_step)
    next
      case False
      with p WeakRef have "v' = ?v1"
        by (simp add: VisitPointersImpl_slot_def Let_def)
      then show ?thesis
        by (simp add: pointer_step_refl)
    qed
  next
    case (Smi n)
    with p have "v' = ?v1"
      by (simp add: VisitPointersImpl_slot_def Let_def)
    then show ?thesis
      by (simp add: pointer_step_refl)
  next
    case ClearedWeak
    with p have "v' = ?v1"
      by (simp add: VisitPointersImpl_slot_def Let_def)
    then show ?thesis
      by (simp add: pointer_step_refl)
  qed
  with s1 show ?thesis
    using pointer_step_trans by fastforce
qed

lemma VisitPointersImpl_slot_returns:
  assumes "heap_ok heap"
  shows "\<exists>v'. VisitPointersImpl_slot heap w v host slot = Inr v'"
  using ProcessStrongHeapObject_returns [OF assms]
  by (cases "Relaxed_Load heap slot")
    (auto simp: VisitPointersImpl_slot_def Let_def ProcessWeakHeapObject_def)

lemma VisitPointersImpl_step:
  "VisitPointersImpl heap w v host slot end_slot = Inr v' \<Longrightarrow>
    pointer_step heap v v' (slot_range heap slot end_slot)"
proof (induction heap w v host slot end_slot rule: VisitPointersImpl.induct)
  case (1 heap w v host slot end_slot)
  note run = "1.prems"
  show ?case
  proof (cases "slot < end_slot")
    case False
    with run have "v' = v"
      by (subst (asm) VisitPointersImpl.simps) simp
    with False show ?thesis
      by (subst slot_range.simps) (simp add: pointer_step_refl)
  next
    case True
    with run obtain v1 where
      s: "VisitPointersImpl_slot heap w v host slot = Inr v1"
      and r: "VisitPointersImpl heap w v1 host (slot + kTaggedSize heap) end_slot = Inr v'"
      by (subst (asm) VisitPointersImpl.simps) (auto split: sum.splits)
    have "pointer_step heap v v1 [slot]"
      by (rule VisitPointersImpl_slot_step [OF s])
    moreover have "pointer_step heap v1 v' (slot_range heap (slot + kTaggedSize heap) end_slot)"
      by (rule "1.IH" [OF True s r])
    ultimately have "pointer_step heap v v'
        ([slot] @ slot_range heap (slot + kTaggedSize heap) end_slot)"
      by (rule pointer_step_trans)
    with True show ?thesis
      by (subst slot_range.simps) simp
  qed
qed

lemma VisitPointersImpl_returns:
  "heap_ok heap \<Longrightarrow> \<exists>v'. VisitPointersImpl heap w v host slot end_slot = Inr v'"
proof (induction heap w v host slot end_slot rule: VisitPointersImpl.induct)
  case (1 heap w v host slot end_slot)
  note ok = "1.prems"
  show ?case
  proof (cases "slot < end_slot")
    case False
    then show ?thesis
      by (subst VisitPointersImpl.simps) simp
  next
    case True
    from VisitPointersImpl_slot_returns [OF ok] obtain v1 where
      s: "VisitPointersImpl_slot heap w v host slot = Inr v1"
      by blast
    from "1.IH" [OF True s ok] obtain v' where
      "VisitPointersImpl heap w v1 host (slot + kTaggedSize heap) end_slot = Inr v'"
      by blast
    with True s show ?thesis
      by (subst VisitPointersImpl.simps) simp
  qed
qed

lemma example_marking_ok: "marking_ok example_heap"
  by (simp add: marking_ok_def example_heap_def)

lemma example_heap_ok: "heap_ok example_heap"
  by (auto simp: heap_ok_def example_heap_def)

lemma pushed_once_fresh: "pushed_once example_heap fresh_Visitor"
  by (simp add: pushed_once_def fresh_Visitor_def)

lemma pushed_once_step:
  assumes "pushed_once heap v" and "marks_step heap v v' new"
  shows "pushed_once heap v'"
  unfolding pushed_once_def
proof (intro allI conjI)
  fix x
  from assms have c: "calls v' = calls v @ new"
    and a: "pushes x (calls v) \<le> 1" "0 < pushes x (calls v) \<Longrightarrow> IsMarked heap (marking_state v) x"
    and b: "pushes x new \<le> 1"
      "0 < pushes x new \<Longrightarrow> \<not> IsMarked heap (marking_state v) x \<and> IsMarked heap (marking_state v') x"
    and mono: "IsMarked heap (marking_state v) x \<Longrightarrow> IsMarked heap (marking_state v') x"
    by (simp_all add: pushed_once_def marks_step_def)
  have "pushes x (calls v) = 0 \<or> pushes x new = 0"
    using a(2) b(2) by auto
  with a(1) b(1) show "pushes x (calls v') \<le> 1"
    unfolding c by auto
  show "0 < pushes x (calls v') \<longrightarrow> IsMarked heap (marking_state v') x"
    unfolding c using a(2) b(2) mono by auto
qed

lemma pointer_step_pushed_once:
  assumes "marking_ok heap" and "pushed_once heap v" and "pointer_step heap v v' slots"
  shows "pushed_once heap v'"
  using assms pushed_once_step unfolding pointer_step_def by blast

lemma MarkObjects_pushed_once:
  "marking_ok heap \<Longrightarrow> pushed_once heap v \<Longrightarrow> MarkObjects heap v pairs = Inr v' \<Longrightarrow>
     pushed_once heap v'"
proof (induction pairs arbitrary: v)
  case Nil
  then show ?case by simp
next
  case (Cons p pairs)
  obtain host object where p: "p = (host, object)"
    by (cases p)
  from Cons.prems(3) p obtain v1 where m: "MarkObject heap v host object = Inr v1"
    and r: "MarkObjects heap v1 pairs = Inr v'"
    by (auto split: sum.splits)
  from pointer_step_pushed_once [OF Cons.prems(1) Cons.prems(2) MarkObject_step [OF m]]
  have "pushed_once heap v1" .
  from Cons.IH [OF Cons.prems(1) this r] show ?case .
qed

lemma MarkObjects_returns:
  "heap_ok heap \<Longrightarrow> \<exists>v'. MarkObjects heap v pairs = Inr v'"
proof (induction pairs arbitrary: v)
  case Nil
  then show ?case by simp
next
  case (Cons p pairs)
  obtain host object where p: "p = (host, object)"
    by (cases p)
  from Cons.prems have "ReadOnlyHeap_Contains heap object \<or> heap_Contains heap object"
    by (simp add: heap_ok_def)
  from MarkObject_returns [OF this] obtain v1 where "MarkObject heap v host object = Inr v1"
    by blast
  with Cons.IH [OF Cons.prems, of v1] p show ?case
    by simp
qed

lemma example_MarkObjects:
  "map_sum id (\<lambda>v'. (marking_state v', calls v'))
     (MarkObjects example_heap fresh_Visitor [(1, 2000), (3, 2000), (1, 2008)]) =
   Inr ([2008, 2000],
        [SynchronizePageAccess 2000, AddStrongReferenceForReferenceSummarizer 1 2000,
         Push_marking_worklist 2000,
         SynchronizePageAccess 2000, AddStrongReferenceForReferenceSummarizer 3 2000,
         SynchronizePageAccess 2008, AddStrongReferenceForReferenceSummarizer 1 2008,
         Push_marking_worklist 2008])"
  by code_simp

lemma VisitPointer_single:
  "VisitPointer heap v host p = VisitPointersImpl_slot heap False v host p"
proof -
  have "0 < kTaggedSize heap"
    by (rule kTaggedSize_pos)
  then have "VisitPointersImpl heap False v host p (p + kTaggedSize heap) =
      (case VisitPointersImpl_slot heap False v host p of
         Inl e \<Rightarrow> Inl e
       | Inr v' \<Rightarrow> VisitPointersImpl heap False v' host (p + kTaggedSize heap) (p + kTaggedSize heap))"
    by (subst VisitPointersImpl.simps) simp
  also have "\<dots> = VisitPointersImpl_slot heap False v host p"
    by (subst VisitPointersImpl.simps) (simp split: sum.splits)
  finally show ?thesis
    by (simp add: VisitPointer_def)
qed

lemma slot_range_single: "slot_range heap p (p + kTaggedSize heap) = [p]"
proof -
  have "0 < kTaggedSize heap"
    by (rule kTaggedSize_pos)
  then show ?thesis
    by (subst slot_range.simps, subst slot_range.simps) simp
qed

lemma emit3:
  "emit c3 (emit c2 (emit c1 v)) = v\<lparr>calls := calls v @ [c1, c2, c3]\<rparr>"
  by (simp add: emit_def)

lemma VisitEphemeronHashTable_entry_live_key:
  assumes "InReadOnlySpace heap (KeyAt heap table i) \<or>
      IsMarked heap (marking_state v) (KeyAt heap table i)"
    and "\<not> InWritableSharedSpace heap (KeyAt heap table i)"
  shows "VisitEphemeronHashTable_entry heap v table i =
     VisitPointer heap (v\<lparr>calls := calls v @ key_calls heap table i\<rparr>) table
       (value_slot_of heap table i)"
  using assms
  by (simp add: VisitEphemeronHashTable_entry_def Let_def DCHECK_def emit3 key_calls_def
      key_slot_of_def value_slot_of_def)

lemma VisitEphemeronHashTable_entry_dead_key:
  assumes "\<not> (InReadOnlySpace heap (KeyAt heap table i) \<or>
      IsMarked heap (marking_state v) (KeyAt heap table i))"
    and "\<not> InWritableSharedSpace heap (KeyAt heap table i)"
  shows "VisitEphemeronHashTable_entry heap v table i =
     Inr (v\<lparr>calls := calls v @ key_calls heap table i @
       (case ValueAt heap table i of
          StrongRef val \<Rightarrow>
            [SynchronizePageAccess val, RecordSlot table (value_slot_of heap table i) val,
             AddWeakReferenceForReferenceSummarizer table val] @
            (if ShouldMarkObject heap val \<and> IsUnmarked heap (marking_state v) val
             then [Push_discovered_ephemerons (KeyAt heap table i) val] else [])
        | other \<Rightarrow> [])\<rparr>)"
  using assms
  by (cases "ValueAt heap table i")
    (simp_all add: VisitEphemeronHashTable_entry_def Let_def DCHECK_def emit_def key_calls_def
      key_slot_of_def value_slot_of_def)

lemma VisitEphemeronHashTable_entry_shared_key:
  assumes "InWritableSharedSpace heap (KeyAt heap table i)"
  shows "VisitEphemeronHashTable_entry heap v table i = Inl DCheckFailed"
  using assms by (simp add: VisitEphemeronHashTable_entry_def Let_def DCHECK_def)

lemma VisitEphemeronHashTable_entry_calls:
  assumes run: "VisitEphemeronHashTable_entry heap v table i = Inr v'"
  shows "\<exists>new. calls v' = calls v @ key_calls heap table i @ new \<and>
           (\<forall>t. Push_ephemeron_hash_tables t \<notin> set new)"
proof -
  from run have ns: "\<not> InWritableSharedSpace heap (KeyAt heap table i)"
    using VisitEphemeronHashTable_entry_shared_key [of heap table i v] by auto
  show ?thesis
  proof (cases "InReadOnlySpace heap (KeyAt heap table i) \<or>
      IsMarked heap (marking_state v) (KeyAt heap table i)")
    case True
    let ?v3 = "v\<lparr>calls := calls v @ key_calls heap table i\<rparr>"
    from run have "VisitPointersImpl_slot heap False ?v3 table (value_slot_of heap table i) = Inr v'"
      unfolding VisitEphemeronHashTable_entry_live_key [OF True ns] VisitPointer_single .
    from VisitPointersImpl_slot_step [OF this] obtain new where
      "calls v' = calls ?v3 @ new" and k: "list_all is_pointer_visit_call new"
      unfolding pointer_step_def by blast
    moreover have "Push_ephemeron_hash_tables t \<notin> set new" for t
      using k by (auto simp: list_all_iff)
    ultimately show ?thesis
      by auto
  next
    case False
    from run show ?thesis
      unfolding VisitEphemeronHashTable_entry_dead_key [OF False ns]
      by (cases "ValueAt heap table i") auto
  qed
qed

lemma VisitEphemeronHashTable_entries_calls:
  "VisitEphemeronHashTable_entries heap v table entries = Inr v' \<Longrightarrow>
     \<exists>new. calls v' = calls v @ new \<and> (\<forall>t. Push_ephemeron_hash_tables t \<notin> set new) \<and>
       (\<forall>i \<in> set entries.
          RecordSlot table (key_slot_of heap table i) (KeyAt heap table i) \<in> set new)"
proof (induction entries arbitrary: v)
  case Nil
  then show ?case by simp
next
  case (Cons i entries)
  from Cons.prems obtain v1 where e: "VisitEphemeronHashTable_entry heap v table i = Inr v1"
    and r: "VisitEphemeronHashTable_entries heap v1 table entries = Inr v'"
    by (auto split: sum.splits)
  from VisitEphemeronHashTable_entry_calls [OF e] obtain n1 where
    n1: "calls v1 = calls v @ key_calls heap table i @ n1"
    "\<forall>t. Push_ephemeron_hash_tables t \<notin> set n1"
    by blast
  from Cons.IH [OF r] obtain n2 where
    n2: "calls v' = calls v1 @ n2" "\<forall>t. Push_ephemeron_hash_tables t \<notin> set n2"
    "\<forall>j \<in> set entries. RecordSlot table (key_slot_of heap table j) (KeyAt heap table j) \<in> set n2"
    by blast
  show ?case
    by (rule exI [of _ "key_calls heap table i @ n1 @ n2"])
      (use n1 n2 in \<open>auto simp: key_calls_def\<close>)
qed

lemma example_VisitEphemeronHashTable:
  "map_sum id (\<lambda>(r, v'). (r, marking_state v', calls v'))
     (VisitEphemeronHashTable example_heap (fresh_Visitor\<lparr>marking_state := [2000]\<rparr>) 500 3000) =
   Inr (64, [2024, 2008, 2000],
     [Push_ephemeron_hash_tables 3000,
      SynchronizePageAccess 2000, RecordSlot 3000 3016 2000,
      AddWeakReferenceForReferenceSummarizer 3000 2000,
      Load 3024, SynchronizePageAccess 2008, SynchronizePageAccess 2008,
      AddStrongReferenceForReferenceSummarizer 3000 2008, Push_marking_worklist 2008,
      RecordSlot 3000 3024 2008,
      SynchronizePageAccess 4000, RecordSlot 3000 3032 4000,
      AddWeakReferenceForReferenceSummarizer 3000 4000,
      Load 3040, SynchronizePageAccess 2024, SynchronizePageAccess 2024,
      AddStrongReferenceForReferenceSummarizer 3000 2024, Push_marking_worklist 2024,
      RecordSlot 3000 3040 2024,
      SynchronizePageAccess 2016, RecordSlot 3000 3048 2016,
      AddWeakReferenceForReferenceSummarizer 3000 2016])"
  by code_simp

lemma ProcessStrongHeapObject_calls:
  assumes "ProcessStrongHeapObject heap v host slot h = Inr v'" and "ShouldMarkObject heap h"
  shows "marking_state v' = snd (TryMark heap (marking_state v) h)"
    and "calls v' = calls v @
      [SynchronizePageAccess h, SynchronizePageAccess h,
       AddStrongReferenceForReferenceSummarizer host h] @
      (if fst (TryMark heap (marking_state v) h)
       then Push_marking_worklist h #
            (if retaining_path_mode heap = kEnabled then [AddRetainer host h] else [])
       else []) @ [RecordSlot host slot h]"
proof -
  from assms obtain v2 where m: "MarkObject heap (emit (SynchronizePageAccess h) v) host h = Inr v2"
    and v': "v' = emit (RecordSlot host slot h) v2"
    by (auto simp: ProcessStrongHeapObject_def Let_def split: sum.splits)
  from MarkObject_calls(2,3) [OF m] v'
  show "marking_state v' = snd (TryMark heap (marking_state v) h)"
    and "calls v' = calls v @
      [SynchronizePageAccess h, SynchronizePageAccess h,
       AddStrongReferenceForReferenceSummarizer host h] @
      (if fst (TryMark heap (marking_state v) h)
       then Push_marking_worklist h #
            (if retaining_path_mode heap = kEnabled then [AddRetainer host h] else [])
       else []) @ [RecordSlot host slot h]"
    by simp_all
qed




lemma int_of_size_t_of_int:
  assumes "0 \<le> i" "i < 2 ^ 31"
  shows "int_of_size_t (size_t_of_int i) = i"
proof -
  have "(ucast (word_of_int i :: 64 word) :: 32 word) = word_of_int i"
    by (simp add: ucast_eq unsigned_of_int word_of_int_eq_iff min_def)
  moreover have "sint (word_of_int i :: 32 word) = i"
    using assms by (simp add: signed_of_int signed_take_bit_int_eq_self)
  ultimately show ?thesis
    by (simp add: int_of_size_t_def size_t_of_int_def)
qed

lemma RawField_add:
  assumes "0 \<le> a" "0 \<le> d"
  shows "RawField object (a + d) = RawField object a + nat d"
  using assms by (simp add: RawField_def nat_add_distrib)

lemma RawField_mono:
  assumes "a \<le> b"
  shows "RawField object a \<le> RawField object b"
  using assms by (simp add: RawField_def)

lemma RawField_less:
  assumes "0 \<le> a" "a < b"
  shows "RawField object a < RawField object b"
  using assms by (simp add: RawField_def)

lemma slot_range_empty:
  assumes "b \<le> a"
  shows "slot_range heap a b = []"
  using assms by (subst slot_range.simps) simp

lemma slot_range_append:
  "a \<le> b \<Longrightarrow> (b - a) mod kTaggedSize heap = 0 \<Longrightarrow> b \<le> c \<Longrightarrow>
     slot_range heap a b @ slot_range heap b c = slot_range heap a c"
proof (induction heap a b rule: slot_range.induct)
  case (1 heap a b)
  show ?case
  proof (cases "a < b")
    case False
    with 1(2) have "a = b" by simp
    then show ?thesis
      by (simp add: slot_range_empty)
  next
    case True
    have pos: "0 < kTaggedSize heap"
      by (rule kTaggedSize_pos)
    from True 1(3) have dvd: "kTaggedSize heap dvd b - a" and "0 < b - a"
      by auto
    then have ge: "kTaggedSize heap \<le> b - a"
      by (simp add: dvd_imp_le)
    then have le: "a + kTaggedSize heap \<le> b"
      using True by simp
    from dvd ge have "(b - (a + kTaggedSize heap)) mod kTaggedSize heap = 0"
      by (metis diff_diff_left dvd_diff_nat dvd_refl mod_0_imp_dvd mod_eq_0_iff_dvd)
    with True le 1(4) have ih: "slot_range heap (a + kTaggedSize heap) b @ slot_range heap b c =
        slot_range heap (a + kTaggedSize heap) c"
      by (intro 1(1)) simp_all
    from True 1(4) have ac: "a < c" by simp
    have "slot_range heap a b = a # slot_range heap (a + kTaggedSize heap) b"
      using True by (subst slot_range.simps) simp
    moreover have "slot_range heap a c = a # slot_range heap (a + kTaggedSize heap) c"
      using ac by (subst slot_range.simps) simp
    ultimately show ?thesis
      using ih by simp
  qed
qed

lemma slot_range_bounds:
  "s \<in> set (slot_range heap a b) \<Longrightarrow> a \<le> s \<and> s < b"
proof (induction heap a b rule: slot_range.induct)
  case (1 heap a b)
  show ?case
  proof (cases "a < b")
    case False
    with 1(2) show ?thesis
      by (simp add: slot_range_empty)
  next
    case True
    then have "slot_range heap a b = a # slot_range heap (a + kTaggedSize heap) b"
      by (subst slot_range.simps) simp
    with 1(2) have "s = a \<or> s \<in> set (slot_range heap (a + kTaggedSize heap) b)"
      by simp
    then show ?thesis
    proof
      assume "s = a"
      with True show ?thesis by simp
    next
      assume "s \<in> set (slot_range heap (a + kTaggedSize heap) b)"
      with True have "a + kTaggedSize heap \<le> s \<and> s < b"
        by (intro 1(1))
      then show ?thesis by simp
    qed
  qed
qed

lemma slot_range_sorted: "sorted_wrt (<) (slot_range heap a b)"
proof (induction heap a b rule: slot_range.induct)
  case (1 heap a b)
  show ?case
  proof (cases "a < b")
    case False
    then show ?thesis
      by (simp add: slot_range_empty)
  next
    case True
    then have eq: "slot_range heap a b = a # slot_range heap (a + kTaggedSize heap) b"
      by (subst slot_range.simps) simp
    have "0 < kTaggedSize heap"
      by (rule kTaggedSize_pos)
    then have "\<forall>s \<in> set (slot_range heap (a + kTaggedSize heap) b). a < s"
      using slot_range_bounds [of _ heap "a + kTaggedSize heap" b] by fastforce
    moreover from True have "sorted_wrt (<) (slot_range heap (a + kTaggedSize heap) b)"
      by (rule 1)
    ultimately show ?thesis
      unfolding eq by simp
  qed
qed

lemma slot_range_distinct: "distinct (slot_range heap a b)"
  using slot_range_sorted [of heap a b] by (simp add: strict_sorted_iff)

lemma pointer_step_marked:
  assumes "marking_ok heap" and "pointer_step heap v v' slots"
    and "IsMarked heap (marking_state v) x"
  obtains new where "calls v' = calls v @ new" and "loads new = slots"
    and "pushes x new = 0" and "IsMarked heap (marking_state v') x"
proof -
  from pointer_step_marks [OF assms(2,1)] obtain new where n: "calls v' = calls v @ new"
    "loads new = slots" "marks_step heap v v' new"
    by blast
  from n(3) assms(3) have "pushes x new = 0" "IsMarked heap (marking_state v') x"
    unfolding marks_step_def by (metis not_gr_zero, blast)
  with n show ?thesis
    by (intro that [of new])
qed

lemma VisitFixedArrayWithProgressBar_run:
  fixes heap :: "'ms Heap"
  assumes ok: "heap_ok heap" and mk: "marking_ok heap"
    and a: "array_ok heap v map_object object progress_bar"
  obtains v' new where
    "VisitFixedArrayWithProgressBar heap v map_object object progress_bar =
       (if increment_start heap progress_bar < increment_end heap map_object object progress_bar \<and>
           \<not> fst (TrySetNewValue progress_bar (Value progress_bar)
                    (size_t_of_int (increment_end heap map_object object progress_bar)))
        then Inl CheckFailed
        else Inr (increment_end heap map_object object progress_bar -
                    increment_start heap progress_bar,
                  if increment_start heap progress_bar <
                     increment_end heap map_object object progress_bar
                  then snd (TrySetNewValue progress_bar (Value progress_bar)
                         (size_t_of_int (increment_end heap map_object object progress_bar)))
                  else progress_bar, v'))"
    and "calls v' = calls v @ new"
    and "loads new = slot_range heap (RawField object (increment_start heap progress_bar))
                   (RawField object (increment_end heap map_object object progress_bar))"
    and "pushes object new =
       (if increment_start heap progress_bar < increment_end heap map_object object progress_bar \<and>
           increment_end heap map_object object progress_bar <
             FixedArray_SizeOf heap map_object object
        then 1 else 0)"
    and "IsMarked heap (marking_state v') object"
    and "int_of_size_t (Value progress_bar) = 0 \<longrightarrow>
        (\<exists>v1 rest. VisitMapPointer heap v object = Inr v1 \<and> calls v' = calls v1 @ rest)"
proof -
  let ?S = "FixedArray_SizeOf heap map_object object"
  let ?K = "FixedArray_kStartOffset heap"
  let ?chunk = "kMaxRegularHeapObjectSize heap"
  let ?c = "int_of_size_t (Value progress_bar)"
  let ?start = "increment_start heap progress_bar"
  let ?stop = "increment_end heap map_object object progress_bar"
  from a have marked: "IsMarked heap (marking_state v) object"
    and should: "ShouldMarkObject heap object"
    and K0: "0 \<le> ?K" and KS: "?K \<le> ?S" and ch: "0 < ?chunk"
    and S31: "?S + ?chunk < 2 ^ 31" and c0: "0 \<le> ?c" and cS: "?c \<le> ?S"
    by (simp_all add: array_ok_def)
  have start_def: "?start = (if ?c = 0 then ?K else ?c)"
    by (simp add: increment_start_def Let_def)
  have end_def: "?stop = min ?S (?start + ?chunk)"
    by (simp add: increment_end_def)
  from K0 KS c0 cS have st: "0 \<le> ?start" "?start \<le> ?S"
    by (simp_all add: start_def)
  from st ch S31 have r1: "in_int_range (?start + ?chunk)"
    by (simp add: in_int_range_def)
  from st ch S31 have r2: "in_int_range (?stop - ?start)"
    by (simp add: in_int_range_def end_def min_def)
  obtain v1 where vm: "?c = 0 \<Longrightarrow> VisitMapPointer heap v object = Inr v1"
    and vn: "?c \<noteq> 0 \<Longrightarrow> v1 = v" and s1: "pointer_step heap v v1 []"
  proof (cases "?c = 0")
    case True
    from ProcessStrongHeapObject_returns [OF ok] obtain v1 where
      r: "VisitMapPointer heap v object = Inr v1"
      unfolding VisitMapPointer_def by blast
    then have "pointer_step heap v v1 []"
      unfolding VisitMapPointer_def by (rule ProcessStrongHeapObject_step)
    with r True show ?thesis
      by (intro that [of v1]) simp_all
  next
    case False
    then show ?thesis
      by (intro that [of v]) (simp_all add: pointer_step_refl)
  qed
  obtain v2 where vp: "?start < ?stop \<Longrightarrow>
      VisitPointers heap v1 object (RawField object ?start) (RawField object ?stop) = Inr v2"
    and vq: "\<not> ?start < ?stop \<Longrightarrow> v2 = v1"
    and s2: "pointer_step heap v1 v2
      (slot_range heap (RawField object ?start) (RawField object ?stop))"
  proof (cases "?start < ?stop")
    case True
    from VisitPointersImpl_returns [OF ok] obtain v2 where
      r: "VisitPointers heap v1 object (RawField object ?start) (RawField object ?stop) = Inr v2"
      unfolding VisitPointers_def by blast
    then have "pointer_step heap v1 v2
        (slot_range heap (RawField object ?start) (RawField object ?stop))"
      unfolding VisitPointers_def by (rule VisitPointersImpl_step)
    with r True show ?thesis
      by (intro that [of v2]) simp_all
  next
    case False
    then have "RawField object ?stop \<le> RawField object ?start"
      by (intro RawField_mono) simp
    then have "slot_range heap (RawField object ?start) (RawField object ?stop) = []"
      by (rule slot_range_empty)
    with False show ?thesis
      by (intro that [of v1]) (simp_all add: pointer_step_refl)
  qed
  let ?again = "?start < ?stop \<and> ?stop < ?S"
  let ?v' = "if ?again then emit (Push_marking_worklist object) v2 else v2"
  from pointer_step_trans [OF s1 s2]
  have "pointer_step heap v v2 (slot_range heap (RawField object ?start) (RawField object ?stop))"
    by simp
  from pointer_step_marked [OF mk this marked] obtain new0 where
    n: "calls v2 = calls v @ new0"
      "loads new0 = slot_range heap (RawField object ?start) (RawField object ?stop)"
      "pushes object new0 = 0" "IsMarked heap (marking_state v2) object"
    by blast
  let ?cas = "TrySetNewValue progress_bar (Value progress_bar) (size_t_of_int ?stop)"
  have run: "VisitFixedArrayWithProgressBar heap v map_object object progress_bar =
       (if ?start < ?stop \<and> \<not> fst ?cas then Inl CheckFailed
        else Inr (?stop - ?start, if ?start < ?stop then snd ?cas else progress_bar, ?v'))"
  proof (cases "?c = 0")
    case True
    then have s: "?start = ?K"
      by (simp add: start_def)
    show ?thesis
    proof (cases "?start < ?stop")
      case lt: True
      from lt vp [OF lt] vm [OF True] r1 r2 marked should True show ?thesis
        unfolding s
        by (simp add: VisitFixedArrayWithProgressBar_def Let_def DCHECK_def int_checked_def
            split_beta end_def [unfolded s, symmetric])
    next
      case ge: False
      from ge vq [OF ge] vm [OF True] r1 r2 marked should True show ?thesis
        unfolding s
        by (simp add: VisitFixedArrayWithProgressBar_def Let_def DCHECK_def int_checked_def
            split_beta end_def [unfolded s, symmetric])
    qed
  next
    case False
    then have s: "?start = ?c"
      by (simp add: start_def)
    show ?thesis
    proof (cases "?start < ?stop")
      case lt: True
      from lt vp [OF lt] vn [OF False] r1 r2 marked should False show ?thesis
        unfolding s
        by (simp add: VisitFixedArrayWithProgressBar_def Let_def DCHECK_def int_checked_def
            split_beta end_def [unfolded s, symmetric])
    next
      case ge: False
      from ge vq [OF ge] vn [OF False] r1 r2 marked should False show ?thesis
        unfolding s
        by (simp add: VisitFixedArrayWithProgressBar_def Let_def DCHECK_def int_checked_def
            split_beta end_def [unfolded s, symmetric])
    qed
  qed
  let ?new = "new0 @ (if ?again then [Push_marking_worklist object] else [])"
  from n have f: "calls ?v' = calls v @ ?new" "loads ?new =
      slot_range heap (RawField object ?start) (RawField object ?stop)"
    "pushes object ?new = (if ?again then 1 else 0)" "IsMarked heap (marking_state ?v') object"
    by simp_all
  from s2 obtain rest0 where "calls v2 = calls v1 @ rest0"
    unfolding pointer_step_def by blast
  then have "calls ?v' = calls v1 @ rest0 @ (if ?again then [Push_marking_worklist object] else [])"
    by simp
  with vm have g: "?c = 0 \<longrightarrow>
      (\<exists>v1 rest. VisitMapPointer heap v object = Inr v1 \<and> calls ?v' = calls v1 @ rest)"
    by blast
  from run f g show ?thesis
    by (rule that)
qed

lemma TrySetNewValue_succeeds:
  assumes "other_write progress_bar = None \<or>
           other_write progress_bar = Some (bar_value progress_bar)"
  shows "TrySetNewValue progress_bar (Value progress_bar) x =
      (True, \<lparr>bar_value = x, other_write = None\<rparr>)"
  using assms by (auto simp: TrySetNewValue_def Value_def)

lemma TrySetNewValue_fails:
  assumes "other_write progress_bar = Some w" and "w \<noteq> bar_value progress_bar"
  shows "TrySetNewValue progress_bar (Value progress_bar) x =
      (False, \<lparr>bar_value = w, other_write = None\<rparr>)"
  using assms by (auto simp: TrySetNewValue_def Value_def)

lemma increment_bounds:
  assumes a: "array_ok heap v map_object object progress_bar"
  shows "int_of_size_t (Value progress_bar) \<le> increment_start heap progress_bar"
    and "0 \<le> increment_start heap progress_bar"
    and "increment_start heap progress_bar \<le> FixedArray_SizeOf heap map_object object"
    and "increment_end heap map_object object progress_bar \<le>
           FixedArray_SizeOf heap map_object object"
    and "increment_end heap map_object object progress_bar < 2 ^ 31"
    and "increment_start heap progress_bar < FixedArray_SizeOf heap map_object object \<Longrightarrow>
           increment_start heap progress_bar < increment_end heap map_object object progress_bar"
    and "increment_end heap map_object object progress_bar <
           FixedArray_SizeOf heap map_object object \<Longrightarrow>
         increment_end heap map_object object progress_bar =
           increment_start heap progress_bar + kMaxRegularHeapObjectSize heap"
  using a by (auto simp: array_ok_def increment_start_def increment_end_def Let_def min_def)

lemma VisitIncrements_run:
  fixes heap :: "'ms Heap"
  assumes ok: "heap_ok heap" and mk: "marking_ok heap"
  shows "array_ok heap v map_object object progress_bar \<Longrightarrow>
     other_write progress_bar = None \<Longrightarrow>
     \<exists>progress_bar' v' new.
       VisitIncrements heap v map_object object progress_bar = Some (Inr (progress_bar', v')) \<and>
       calls v' = calls v @ new \<and>
       loads new = slot_range heap (RawField object (increment_start heap progress_bar))
                     (RawField object (FixedArray_SizeOf heap map_object object)) \<and>
       (increment_start heap progress_bar < FixedArray_SizeOf heap map_object object \<longrightarrow>
          int_of_size_t (Value progress_bar') = FixedArray_SizeOf heap map_object object)"
proof (induction "nat (FixedArray_SizeOf heap map_object object -
    increment_start heap progress_bar)" arbitrary: v progress_bar rule: less_induct)
  case less
  let ?S = "FixedArray_SizeOf heap map_object object"
  let ?chunk = "kMaxRegularHeapObjectSize heap"
  let ?start = "increment_start heap progress_bar"
  let ?stop = "increment_end heap map_object object progress_bar"
  let ?pb1 = "\<lparr>bar_value = size_t_of_int ?stop, other_write = None\<rparr>"
  note a = less.prems(1)
  note b = increment_bounds [OF a]
  from less.prems(2) have cas: "TrySetNewValue progress_bar (Value progress_bar) x =
      (True, \<lparr>bar_value = x, other_write = None\<rparr>)" for x
    by (intro TrySetNewValue_succeeds) simp
  obtain v1 new1 where
    run0: "VisitFixedArrayWithProgressBar heap v map_object object progress_bar =
       (if ?start < ?stop \<and> \<not> fst (TrySetNewValue progress_bar (Value progress_bar)
                    (size_t_of_int ?stop))
        then Inl CheckFailed
        else Inr (?stop - ?start,
                  if ?start < ?stop
                  then snd (TrySetNewValue progress_bar (Value progress_bar) (size_t_of_int ?stop))
                  else progress_bar, v1))"
    and c1: "calls v1 = calls v @ new1"
    and l1: "loads new1 = slot_range heap (RawField object ?start) (RawField object ?stop)"
    and p1: "pushes object new1 = (if ?start < ?stop \<and> ?stop < ?S then 1 else 0)"
    and m1: "IsMarked heap (marking_state v1) object"
    by (rule VisitFixedArrayWithProgressBar_run [OF ok mk a])
  from run0 have run: "VisitFixedArrayWithProgressBar heap v map_object object progress_bar =
       Inr (?stop - ?start, if ?start < ?stop then ?pb1 else progress_bar, v1)"
    unfolding cas by simp
  show ?case
  proof (cases "?start < ?stop \<and> ?stop < ?S")
    case True
    with run c1 p1 have unfold: "VisitIncrements heap v map_object object progress_bar =
        VisitIncrements heap v1 map_object object ?pb1"
      by (subst VisitIncrements.simps) simp
    from b(2) True have e0: "0 < ?stop"
      by simp
    with b(5) have cur: "int_of_size_t (Value ?pb1) = ?stop"
      by (simp add: Value_def int_of_size_t_of_int)
    with e0 have st1: "increment_start heap ?pb1 = ?stop"
      by (simp add: increment_start_def Let_def)
    from a m1 cur e0 b(4) have a1: "array_ok heap v1 map_object object ?pb1"
      by (simp add: array_ok_def)
    from True have "nat (?S - increment_start heap ?pb1) < nat (?S - ?start)"
      unfolding st1 by simp
    from less.hyps [OF this a1] obtain progress_bar' v' new2 where
      r2: "VisitIncrements heap v1 map_object object ?pb1 = Some (Inr (progress_bar', v'))"
      and c2: "calls v' = calls v1 @ new2"
      and l2: "loads new2 = slot_range heap (RawField object ?stop) (RawField object ?S)"
      and f2: "int_of_size_t (Value progress_bar') = ?S"
      unfolding st1 using True by auto
    from a have ch: "0 < ?chunk" and md: "?chunk mod int (kTaggedSize heap) = 0"
      by (simp_all add: array_ok_def)
    from True b(7) have en: "?stop = ?start + ?chunk"
      by simp
    from b(2) ch have rf: "RawField object ?stop = RawField object ?start + nat ?chunk"
      unfolding en by (intro RawField_add) simp_all
    from md ch have "nat ?chunk mod kTaggedSize heap = 0"
      by (metis nat_int nat_mod_distrib nat_0 of_nat_0_le_iff less_imp_le)
    then have "(RawField object ?stop - RawField object ?start) mod kTaggedSize heap = 0"
      unfolding rf by simp
    moreover have "RawField object ?start \<le> RawField object ?stop"
      unfolding rf by simp
    moreover from b(4) have "RawField object ?stop \<le> RawField object ?S"
      by (rule RawField_mono)
    ultimately have "slot_range heap (RawField object ?start) (RawField object ?stop) @
        slot_range heap (RawField object ?stop) (RawField object ?S) =
        slot_range heap (RawField object ?start) (RawField object ?S)"
      by (intro slot_range_append)
    with l1 l2 have "loads (new1 @ new2) =
        slot_range heap (RawField object ?start) (RawField object ?S)"
      by simp
    moreover from c1 c2 have "calls v' = calls v @ new1 @ new2"
      by simp
    ultimately show ?thesis
      unfolding unfold using r2 f2 by (intro exI [of _ progress_bar'] exI [of _ v']
        exI [of _ "new1 @ new2"]) simp
  next
    case False
    let ?pb' = "if ?start < ?stop then ?pb1 else progress_bar"
    from False p1 have "pushes object new1 = 0"
      by auto
    with run c1 have unfold: "VisitIncrements heap v map_object object progress_bar =
        Some (Inr (?pb', v1))"
      by (subst VisitIncrements.simps) simp
    have same: "slot_range heap (RawField object ?start) (RawField object ?stop) =
        slot_range heap (RawField object ?start) (RawField object ?S)"
    proof (cases "?start < ?stop")
      case True
      with False b(4) have "?stop = ?S"
        by simp
      then show ?thesis by simp
    next
      case ge: False
      with b(6) have "?S \<le> ?start"
        by fastforce
      then have "RawField object ?S \<le> RawField object ?start"
        by (rule RawField_mono)
      moreover from ge have "RawField object ?stop \<le> RawField object ?start"
        by (intro RawField_mono) simp
      ultimately show ?thesis
        by (simp add: slot_range_empty)
    qed
    have fin: "int_of_size_t (Value ?pb') = ?S" if lt: "?start < ?S"
    proof -
      from b(6) [OF lt] False b(4) have e: "?start < ?stop" "?stop = ?S"
        by simp_all
      from b(2) lt b(5) e show ?thesis
        by (simp add: Value_def int_of_size_t_of_int)
    qed
    from c1 l1 same fin show ?thesis
      unfolding unfold by (intro exI [of _ ?pb'] exI [of _ v1] exI [of _ new1]) simp
  qed
qed

lemma example_array_ok:
  "array_ok example_heap (fresh_Visitor\<lparr>marking_state := [1000]\<rparr>) 500 1000
     \<lparr>bar_value = 0, other_write = None\<rparr>"
  by (simp add: array_ok_def example_heap_def fresh_Visitor_def kTaggedSize_def Value_def
      int_of_size_t_def)

lemma example_VisitFixedArrayWithProgressBar:
  "map_sum id (\<lambda>(r, progress_bar', v').
       (r, progress_bar', loads (calls v'), pushes 1000 (calls v')))
     (VisitFixedArrayWithProgressBar example_heap (fresh_Visitor\<lparr>marking_state := [1000]\<rparr>)
        500 1000 \<lparr>bar_value = 0, other_write = None\<rparr>) =
   Inr (16, \<lparr>bar_value = 32, other_write = None\<rparr>, [1016, 1024], 1)"
  by code_simp

lemma example_VisitIncrements:
  "map_option (map_sum id (\<lambda>(progress_bar', v'). (progress_bar', loads (calls v'))))
     (VisitIncrements example_heap (fresh_Visitor\<lparr>marking_state := [1000]\<rparr>) 500 1000
        \<lparr>bar_value = 0, other_write = None\<rparr>) =
   Some (Inr (\<lparr>bar_value = 48, other_write = None\<rparr>, [1016, 1024, 1032, 1040]))"
  by code_simp

lemma example_VisitFixedArrayWithProgressBar_interference:
  "VisitFixedArrayWithProgressBar example_heap (fresh_Visitor\<lparr>marking_state := [1000]\<rparr>)
     500 1000 \<lparr>bar_value = 0, other_write = Some 32\<rparr> = Inl CheckFailed"
  by code_simp

section \<open>The claims about the table\<close>

text \<open>
  Claim C1. From a table and space that satisfy the invariant, a call of \<open>AllocateEntry\<close>
  either aborts with the fatal out-of-memory error (the freelist is empty and the subspace
  has no page left) or returns an index that is not 0 and that the space contains, and
  keeps the invariant; and the indices that \<open>n\<close> successive calls return are pairwise
  distinct, none is 0, and the space contains each of them.
\<close>

theorem AllocateEntry_nonzero_distinct:
  fixes cfg :: "'e Cfg" and t :: "'e Table"
  assumes "table_inv cfg t space"
  shows "(case AllocateEntry cfg t space of
            Inl e \<Rightarrow> e = FatalProcessOutOfMemory \<and> is_empty (freelist_head space) \<and>
              (\<exists>v. vas t = Some v \<and> AllocatePages cfg v kNoHint kReadWrite = 0)
          | Inr (i, t', space') \<Rightarrow>
              i \<noteq> 0 \<and> Contains cfg space' i = Inr True \<and> table_inv cfg t' space') \<and>
         (case AllocateEntries cfg n t space of
            Inl e \<Rightarrow> e = FatalProcessOutOfMemory
          | Inr (idxs, t', space') \<Rightarrow>
              length idxs = n \<and> distinct idxs \<and> 0 \<notin> set idxs \<and>
              (\<forall>i \<in> set idxs. Contains cfg space' i = Inr True))"
proof
  from AllocateEntry_step [OF assms]
  show "case AllocateEntry cfg t space of
            Inl e \<Rightarrow> e = FatalProcessOutOfMemory \<and> is_empty (freelist_head space) \<and>
              (\<exists>v. vas t = Some v \<and> AllocatePages cfg v kNoHint kReadWrite = 0)
          | Inr (i, t', space') \<Rightarrow>
              i \<noteq> 0 \<and> Contains cfg space' i = Inr True \<and> table_inv cfg t' space'"
    by (auto split: sum.splits)
  from AllocateEntries_distinct_aux [OF assms, of n]
  show "case AllocateEntries cfg n t space of
            Inl e \<Rightarrow> e = FatalProcessOutOfMemory
          | Inr (idxs, t', space') \<Rightarrow>
              length idxs = n \<and> distinct idxs \<and> 0 \<notin> set idxs \<and>
              (\<forall>i \<in> set idxs. Contains cfg space' i = Inr True)"
    by (auto split: sum.splits)
qed

theorem AllocateEntry_nonzero_distinct_witness:
  "table_inv example_cfg example_table example_space \<and>
   map_sum id fst (AllocateEntries example_cfg 6 example_table example_space) =
     Inr [4, 5, 6, 7, 8, 9] \<and>
   (case AllocateEntries example_cfg 6 example_table example_space of
      Inl e \<Rightarrow> False
    | Inr (idxs, t', space') \<Rightarrow>
        length idxs = 6 \<and> distinct idxs \<and> 0 \<notin> set idxs \<and>
        (\<forall>i \<in> set idxs. Contains example_cfg space' i = Inr True))"
  using AllocateEntry_nonzero_distinct [OF example_inv, of 6] example_inv example_AllocateEntries
  by (auto split: sum.splits)

text \<open>
  Claim C2. \<open>AllocateEntryBelow\<close> with threshold \<open>T\<close> always returns; a nonzero result is
  the head's next index and lies below \<open>T\<close>; the result is 0 exactly when the freelist is
  empty or the head's next index is at least \<open>T\<close>, whatever lies deeper in the freelist;
  and the segments of the space stay as they are (no \<open>Extend\<close>), as does the whole space
  when 0 is returned.
\<close>

theorem AllocateEntryBelow_threshold:
  fixes cfg :: "'e Cfg" and t :: "'e Table"
  assumes "table_inv cfg t space"
  shows "\<exists>r space'. AllocateEntryBelow cfg t space T = Inr (r, space') \<and>
           (r \<noteq> 0 \<longrightarrow> r < T \<and> r = next' (freelist_head space)) \<and>
           (r = 0 \<longleftrightarrow> is_empty (freelist_head space) \<or> T \<le> next' (freelist_head space)) \<and>
           (r = 0 \<longrightarrow> space' = space) \<and>
           segments space' = segments space \<and> mutex space' = mutex space"
proof (cases "is_empty (freelist_head space) \<or> T \<le> next' (freelist_head space)")
  case True
  with AllocateEntryBelow_result [OF assms, of T] show ?thesis
    by simp
next
  case False
  then have "length' (freelist_head space) \<noteq> 0"
    by (simp add: is_empty_def)
  from pop_step(4) [OF assms this] False AllocateEntryBelow_result [OF assms, of T]
  show ?thesis
    by (simp add: not_le)
qed

theorem AllocateEntryBelow_threshold_witness:
  "table_inv example_cfg stuck_table stuck_space \<and>
   free_entries example_cfg stuck_table stuck_space = [6, 5] \<and>
   AllocateEntryBelow example_cfg stuck_table stuck_space 6 = Inr (0, stuck_space) \<and>
   map_sum id fst (AllocateEntryBelow example_cfg stuck_table stuck_space 7) = Inr 6"
proof -
  from AllocateEntryBelow_threshold [OF stuck_inv, of 6]
  have "AllocateEntryBelow example_cfg stuck_table stuck_space 6 = Inr (0, stuck_space)"
    by (auto simp: stuck_space_def)
  moreover from AllocateEntryBelow_threshold [OF stuck_inv, of 7]
  have "map_sum id fst (AllocateEntryBelow example_cfg stuck_table stuck_space 7) = Inr 6"
    by (auto simp: stuck_space_def is_empty_def)
  ultimately show ?thesis
    using stuck_inv stuck_free_entries by simp
qed

text \<open>
  Claim C3. With the mutex held and the freelist empty, on an initialized table,
  \<open>Extend\<close> either aborts with the fatal out-of-memory error (the subspace has no page
  left) or adds exactly one segment to the space, backed by one new read-write page: the
  segment's entries are those from its first to its last entry,
  \<open>kEntriesPerSegment\<close> many; every entry but the last links to its successor, the last
  links to 0, entries outside the segment are untouched; and the new freelist head, which
  is also what \<open>Extend\<close> returns, has the segment's first entry as next index and
  length \<open>kEntriesPerSegment\<close>.
\<close>

theorem Extend_links_one_segment:
  fixes cfg :: "'e Cfg" and t :: "'e Table"
  assumes "space_ok cfg t space" and "mutex space" and "is_empty (freelist_head space)"
  shows "case Extend cfg t space of
           Inl e \<Rightarrow> e = FatalProcessOutOfMemory \<and>
             (\<exists>v. vas t = Some v \<and> AllocatePages cfg v kNoHint kReadWrite = 0)
         | Inr (head, t', space') \<Rightarrow>
             (\<exists>seg v. seg \<notin> set (segments space) \<and>
                set (segments space') = insert seg (set (segments space)) \<and>
                vas t = Some v \<and> segment_start cfg v seg \<notin> dom (vas_pages v) \<and>
                vas t' = Some (v\<lparr>vas_pages := (vas_pages v)(segment_start cfg v seg \<mapsto> kReadWrite)\<rparr>) \<and>
                (\<forall>i. Segment_Containing cfg i = seg \<longleftrightarrow>
                       first_entry cfg seg \<le> i \<and> i \<le> last_entry cfg seg) \<and>
                (\<forall>i. first_entry cfg seg \<le> i \<and> i < last_entry cfg seg \<longrightarrow>
                       GetNextFreelistEntryIndex cfg (mem t' i) = i + 1) \<and>
                GetNextFreelistEntryIndex cfg (mem t' (last_entry cfg seg)) = 0 \<and>
                (\<forall>i. Segment_Containing cfg i \<noteq> seg \<longrightarrow> mem t' i = mem t i) \<and>
                head = freelist_head space' \<and> next' head = first_entry cfg seg \<and>
                unat (length' head) = kEntriesPerSegment cfg \<and>
                unat (last_entry cfg seg - first_entry cfg seg) + 1 = kEntriesPerSegment cfg)"
proof -
  from assms(1) have ok: "cfg_ok cfg"
    by (simp add: space_ok_def)
  then have get: "\<And>e n. GetNextFreelistEntryIndex cfg (MakeFreelistEntry cfg e n) = n"
    by (simp add: cfg_ok_def)
  from assms(1) obtain v where v: "vas t = Some v"
    by (auto simp: space_ok_def split: option.splits)
  from assms(3) have e: "length' (freelist_head space) = 0"
    by (simp add: is_empty_def)
  show ?thesis
  proof (cases "AllocatePages cfg v kNoHint kReadWrite = 0")
    case True
    with Extend_OOM [OF assms(2) e v True] v show ?thesis
      by simp
  next
    case False
    obtain seg t' space' where
      ext: "Extend cfg t space = Inr (freelist_head space', t', space')"
      and n0: "seg \<noteq> 0" and notin: "seg \<notin> set (segments space)"
      and segs: "segments space' = set_insert seg (segments space)"
      and hd: "freelist_head space' =
           \<lparr>next' = first_entry cfg seg, length' = of_nat (kEntriesPerSegment cfg)\<rparr>"
      and len: "unat (length' (freelist_head space')) = kEntriesPerSegment cfg"
      and vas': "vas t' = Some (v\<lparr>vas_pages :=
           (vas_pages v)(AllocatePages cfg v kNoHint kReadWrite \<mapsto> kReadWrite)\<rparr>)"
      and st: "segment_start cfg v seg = AllocatePages cfg v kNoHint kReadWrite"
      and fresh: "AllocatePages cfg v kNoHint kReadWrite \<notin> dom (vas_pages v)"
      and m: "mem t' = (Extend_loop cfg (first_entry cfg seg) (last_entry cfg seg) (mem t))
           (last_entry cfg seg := MakeFreelistEntry cfg
              (Extend_loop cfg (first_entry cfg seg) (last_entry cfg seg) (mem t) (last_entry cfg seg)) 0)"
      and sok': "space_ok cfg t' space'"
      by (rule Extend_step [OF assms(1) assms(2) e v refl False])
    from sok' have bound: "unat seg < kReservationSize cfg div kSegmentSize cfg"
      by (simp add: space_ok_def segs set_set_insert)
    note rng = segment_range [OF ok n0 bound]
    note se = segment_entries [OF ok n0 bound]
    have links: "GetNextFreelistEntryIndex cfg (mem t' i) = i + 1"
      if "first_entry cfg seg \<le> i \<and> i < last_entry cfg seg" for i
      using that by (auto simp: m Extend_loop_at get)
    have lastl: "GetNextFreelistEntryIndex cfg (mem t' (last_entry cfg seg)) = 0"
      by (simp add: m get)
    from se(1) se(2) se(4) have fl: "first_entry cfg seg \<le> last_entry cfg seg"
      by (simp add: word_le_nat_alt)
    have others: "mem t' i = mem t i" if "Segment_Containing cfg i \<noteq> seg" for i
      using that fl unfolding rng by (auto simp: m Extend_loop_at)
    have "unat (last_entry cfg seg - first_entry cfg seg) =
        unat (last_entry cfg seg) - unat (first_entry cfg seg)"
      using se(1) se(2) se(4) by (intro unat_sub) (simp add: word_le_nat_alt)
    then have cnt: "unat (last_entry cfg seg - first_entry cfg seg) + 1 = kEntriesPerSegment cfg"
      using se(1) se(2) se(4) by simp
    show ?thesis
      unfolding ext sum.case prod.case
    proof (rule exI [of _ seg], rule exI [of _ v], intro conjI allI)
      show "seg \<notin> set (segments space)" by (rule notin)
      show "set (segments space') = insert seg (set (segments space))"
        by (simp add: segs set_set_insert)
      show "vas t = Some v" by (rule v)
      show "segment_start cfg v seg \<notin> dom (vas_pages v)"
        using fresh by (simp add: st)
      show "vas t' = Some (v\<lparr>vas_pages := (vas_pages v)(segment_start cfg v seg \<mapsto> kReadWrite)\<rparr>)"
        using vas' by (simp add: st)
      show "Segment_Containing cfg i = seg \<longleftrightarrow>
          first_entry cfg seg \<le> i \<and> i \<le> last_entry cfg seg" for i
        by (rule rng)
      show "first_entry cfg seg \<le> i \<and> i < last_entry cfg seg \<longrightarrow>
          GetNextFreelistEntryIndex cfg (mem t' i) = i + 1" for i
        using links by blast
      show "GetNextFreelistEntryIndex cfg (mem t' (last_entry cfg seg)) = 0" by (rule lastl)
      show "Segment_Containing cfg i \<noteq> seg \<longrightarrow> mem t' i = mem t i" for i
        using others by blast
      show "freelist_head space' = freelist_head space'" by (rule refl)
      show "next' (freelist_head space') = first_entry cfg seg" by (simp add: hd)
      show "unat (length' (freelist_head space')) = kEntriesPerSegment cfg" by (rule len)
      show "unat (last_entry cfg seg - first_entry cfg seg) + 1 = kEntriesPerSegment cfg"
        by (rule cnt)
    qed
  qed
qed

theorem Extend_links_one_segment_witness:
  "space_ok example_cfg example_table (example_space\<lparr>mutex := True\<rparr>) \<and>
   mutex (example_space\<lparr>mutex := True\<rparr>) \<and>
   is_empty (freelist_head (example_space\<lparr>mutex := True\<rparr>)) \<and>
   map_sum id (\<lambda>(head, t', space'). (next' head, length' head, segments space',
      map (mem t') [3, 4, 5, 6, 7, 8]))
     (Extend example_cfg example_table (example_space\<lparr>mutex := True\<rparr>)) =
     Inr (4, 4, [1], [0, 5, 6, 7, 0, 0])"
proof -
  have sok: "space_ok example_cfg example_table (example_space\<lparr>mutex := True\<rparr>)"
    using example_inv by (simp add: table_inv_def)
  have held: "mutex (example_space\<lparr>mutex := True\<rparr>)"
    by simp
  have emp: "is_empty (freelist_head (example_space\<lparr>mutex := True\<rparr>))"
    by (simp add: example_space_def empty_Space_def is_empty_def)
  have ev: "map_sum id (\<lambda>(head, t', space'). (next' head, length' head, segments space',
      map (mem t') [3, 4, 5, 6, 7, 8]))
     (Extend example_cfg example_table (example_space\<lparr>mutex := True\<rparr>)) =
     Inr (4, 4, [1], [0, 5, 6, 7, 0, 0])"
    by code_simp
  from Extend_links_one_segment [OF sok held emp] sok held emp ev
  show ?thesis
    by simp
qed

text \<open>
  Claim C4. Entry 0 and segment 0 are reserved. From a table and space that satisfy the
  invariant: \<open>AllocateEntry\<close> returns no 0 and keeps the invariant;
  \<open>AllocateEntryBelow\<close> returns 0 only when it has allocated nothing (the space is
  unchanged); \<open>Extend\<close> adds neither segment 0 to the space nor entry 0 to its
  freelist; segment 0 is not among the segments of the space and entry 0 is not on its
  freelist; \<open>TearDownSpace\<close> succeeds, so no \<open>FreeTableSegment\<close> it calls meets segment
  0 (on which \<open>FreeTableSegment\<close> fails its check), and leaves the read-only page of
  segment 0 in place; and \<open>InitializeTable\<close>, when it succeeds, has committed exactly
  segment 0, read-only.
\<close>

theorem entry_zero_reserved:
  fixes cfg :: "'e Cfg" and t :: "'e Table"
  assumes "table_inv cfg t space"
  shows "(\<forall>i t' s'. AllocateEntry cfg t space = Inr (i, t', s') \<longrightarrow>
            i \<noteq> 0 \<and> table_inv cfg t' s') \<and>
         (\<exists>r s'. AllocateEntryBelow cfg t space T = Inr (r, s') \<and>
            (r = 0 \<longrightarrow> s' = space) \<and> table_inv cfg t s') \<and>
         (\<forall>h t' s'. Extend cfg t (space\<lparr>mutex := True\<rparr>) = Inr (h, t', s') \<longrightarrow>
            0 \<notin> set (segments s') \<and> 0 \<notin> set (free_entries cfg t' s') \<and>
            Segment_Containing cfg (next' h) \<noteq> 0 \<and> space_ok cfg t' s') \<and>
         0 \<notin> set (segments space) \<and> 0 \<notin> set (free_entries cfg t space) \<and>
         (\<exists>t' v'. TearDownSpace cfg t space = Inr (t', space\<lparr>segments := []\<rparr>) \<and>
            vas t' = Some v' \<and> vas_pages v' (vas_base v') = Some kRead) \<and>
         FreeTableSegment cfg t 0 = Inl DCheckFailed \<and>
         (\<forall>t0 t1. InitializeTable cfg t0 = Inr t1 \<longrightarrow>
            (\<exists>v. vas t1 = Some v \<and> base t1 = vas_base v \<and>
                 vas_pages v = [vas_base v \<mapsto> kRead]))"
proof (intro conjI)
  from assms have sok: "space_ok cfg t space" and nm: "\<not> mutex space"
    by (simp_all add: table_inv_def)
  from sok have ok: "cfg_ok cfg"
    by (simp add: space_ok_def)
  note zero = space_ok_def freelist_ok_def
  show "\<forall>i t' s'. AllocateEntry cfg t space = Inr (i, t', s') \<longrightarrow> i \<noteq> 0 \<and> table_inv cfg t' s'"
    using AllocateEntry_step [OF assms] by auto
  show "\<exists>r s'. AllocateEntryBelow cfg t space T = Inr (r, s') \<and> (r = 0 \<longrightarrow> s' = space) \<and>
      table_inv cfg t s'"
  proof (cases "is_empty (freelist_head space) \<or> T \<le> next' (freelist_head space)")
    case True
    with AllocateEntryBelow_result [OF assms, of T] assms show ?thesis
      by simp
  next
    case False
    then have ne: "length' (freelist_head space) \<noteq> 0"
      by (simp add: is_empty_def)
    from pop_step(3,4) [OF assms ne] False AllocateEntryBelow_result [OF assms, of T]
    show ?thesis
      by simp
  qed
  show "\<forall>h t' s'. Extend cfg t (space\<lparr>mutex := True\<rparr>) = Inr (h, t', s') \<longrightarrow>
      0 \<notin> set (segments s') \<and> 0 \<notin> set (free_entries cfg t' s') \<and>
      Segment_Containing cfg (next' h) \<noteq> 0 \<and> space_ok cfg t' s'"
  proof (intro allI impI)
    fix h t' s'
    assume ext: "Extend cfg t (space\<lparr>mutex := True\<rparr>) = Inr (h, t', s')"
    then have e: "length' (freelist_head (space\<lparr>mutex := True\<rparr>)) = 0"
      by (simp add: Extend_def DCHECK_Inr freelist_length_def)
    from assms obtain v where v: "vas t = Some v"
      by (rule table_inv_vas)
    have a: "AllocatePages cfg v kNoHint kReadWrite \<noteq> 0"
    proof
      assume "AllocatePages cfg v kNoHint kReadWrite = 0"
      from Extend_OOM [OF _ e _ this, of t] v ext show False
        by simp
    qed
    have sok1: "space_ok cfg t (space\<lparr>mutex := True\<rparr>)"
      using sok by simp
    obtain seg t1 s1 where ext1: "Extend cfg t (space\<lparr>mutex := True\<rparr>) = Inr (freelist_head s1, t1, s1)"
      and n0: "seg \<noteq> 0"
      and hd: "freelist_head s1 =
           \<lparr>next' = first_entry cfg seg, length' = of_nat (kEntriesPerSegment cfg)\<rparr>"
      and segs: "segments s1 = set_insert seg (segments (space\<lparr>mutex := True\<rparr>))"
      and sok': "space_ok cfg t1 s1"
      by (rule Extend_step [OF sok1 _ e v refl a]) simp
    from ext ext1 have eq: "h = freelist_head s1" "t' = t1" "s' = s1"
      by auto
    from sok' have bound: "unat seg < kReservationSize cfg div kSegmentSize cfg"
      by (simp add: space_ok_def segs set_set_insert)
    have "Segment_Containing cfg (first_entry cfg seg) = seg"
      unfolding segment_range [OF ok n0 bound]
      using segment_entries(1,2,4) [OF ok n0 bound] by (simp add: word_le_nat_alt)
    with n0 hd sok' show "0 \<notin> set (segments s') \<and> 0 \<notin> set (free_entries cfg t' s') \<and>
      Segment_Containing cfg (next' h) \<noteq> 0 \<and> space_ok cfg t' s'"
      unfolding eq by (auto simp: zero)
  qed
  from sok show "0 \<notin> set (segments space)" and "0 \<notin> set (free_entries cfg t space)"
    by (auto simp: zero)
  show "\<exists>t' v'. TearDownSpace cfg t space = Inr (t', space\<lparr>segments := []\<rparr>) \<and>
      vas t' = Some v' \<and> vas_pages v' (vas_base v') = Some kRead"
    by (rule TearDownSpace_ok [OF assms])
  show "FreeTableSegment cfg t 0 = Inl DCheckFailed"
    by (simp add: FreeTableSegment_def DCHECK_def)
  show "\<forall>t0 t1. InitializeTable cfg t0 = Inr t1 \<longrightarrow>
      (\<exists>v. vas t1 = Some v \<and> base t1 = vas_base v \<and> vas_pages v = [vas_base v \<mapsto> kRead])"
    using InitializeTable_segment_zero by blast
qed

theorem entry_zero_reserved_witness:
  "table_inv example_cfg example_table example_space \<and>
   InitializeTable example_cfg empty_Table = Inr example_table \<and>
   map_sum id fst (AllocateEntry example_cfg example_table example_space) = Inr 4 \<and>
   map_sum id (\<lambda>(h, t', s'). segments s')
     (Extend example_cfg example_table (example_space\<lparr>mutex := True\<rparr>)) = Inr [1] \<and>
   map_sum id (\<lambda>(t', s'). segments s')
     (TearDownSpace example_cfg example_table example_space) = Inr []"
proof -
  have "map_sum id fst (AllocateEntry example_cfg example_table example_space) = Inr 4"
    by code_simp
  moreover have "map_sum id (\<lambda>(h, t', s'). segments s')
     (Extend example_cfg example_table (example_space\<lparr>mutex := True\<rparr>)) = Inr [1]"
    by code_simp
  moreover from entry_zero_reserved [OF example_inv, of 0]
  have "map_sum id (\<lambda>(t', s'). segments s')
     (TearDownSpace example_cfg example_table example_space) = Inr []"
    by auto
  ultimately show ?thesis
    using example_inv example_InitializeTable by simp
qed

section \<open>The claims about the marking visitor\<close>

text \<open>
  Claim C5. With a marking state that keeps its contract, a call of \<open>MarkObject\<close> adds one
  push of the referent onto the marking worklist when \<open>TryMark\<close> returns true, which is
  when the referent was not marked yet, and no push at all otherwise; so after any
  sequence of \<open>MarkObject\<close> calls in a marking cycle no object has been pushed more than
  once. The calls return when every referent lies in the heap.
\<close>

theorem MarkObject_pushes_first_marker_only:
  assumes "marking_ok heap" and "pushed_once heap v"
  shows "(\<forall>v'. MarkObject heap v host object = Inr v' \<longrightarrow>
            (\<forall>x. pushes x (calls v') = pushes x (calls v) +
                   (if x = object \<and> fst (TryMark heap (marking_state v) object) then 1 else 0)) \<and>
            (fst (TryMark heap (marking_state v) object) \<longleftrightarrow>
               \<not> IsMarked heap (marking_state v) object)) \<and>
         (\<forall>v'. MarkObjects heap v pairs = Inr v' \<longrightarrow> (\<forall>x. pushes x (calls v') \<le> 1)) \<and>
         (heap_ok heap \<longrightarrow> (\<exists>v'. MarkObjects heap v pairs = Inr v'))"
proof (intro conjI allI impI)
  fix v' x
  assume m: "MarkObject heap v host object = Inr v'"
  from MarkObject_calls(3) [OF m]
  show "pushes x (calls v') = pushes x (calls v) +
      (if x = object \<and> fst (TryMark heap (marking_state v) object) then 1 else 0)"
    by auto
  from assms(1) show "fst (TryMark heap (marking_state v) object) \<longleftrightarrow>
      \<not> IsMarked heap (marking_state v) object"
    by (simp add: marking_ok_def)
next
  fix v' x
  assume "MarkObjects heap v pairs = Inr v'"
  from MarkObjects_pushed_once [OF assms this] show "pushes x (calls v') \<le> 1"
    by (simp add: pushed_once_def)
next
  assume "heap_ok heap"
  then show "\<exists>v'. MarkObjects heap v pairs = Inr v'"
    by (rule MarkObjects_returns)
qed

theorem MarkObject_pushes_first_marker_only_witness:
  "marking_ok example_heap \<and> pushed_once example_heap fresh_Visitor \<and>
   map_sum id (\<lambda>v'. (marking_state v', calls v'))
     (MarkObjects example_heap fresh_Visitor [(1, 2000), (3, 2000), (1, 2008)]) =
   Inr ([2008, 2000],
        [SynchronizePageAccess 2000, AddStrongReferenceForReferenceSummarizer 1 2000,
         Push_marking_worklist 2000,
         SynchronizePageAccess 2000, AddStrongReferenceForReferenceSummarizer 3 2000,
         SynchronizePageAccess 2008, AddStrongReferenceForReferenceSummarizer 1 2008,
         Push_marking_worklist 2008]) \<and>
   (\<exists>v'. MarkObjects example_heap fresh_Visitor [(1, 2000), (3, 2000), (1, 2008)] = Inr v' \<and>
      pushes 2000 (calls v') \<le> 1)"
  using MarkObject_pushes_first_marker_only [OF example_marking_ok pushed_once_fresh,
      of 1 2000 "[(1, 2000), (3, 2000), (1, 2008)]"]
    example_marking_ok pushed_once_fresh example_heap_ok example_MarkObjects
  by auto

text \<open>
  Claim C9. When \<open>VisitEphemeronHashTable\<close> returns, the first call it has made is the
  push of the table onto the ephemeron-hash-tables worklist, the calls after it are those
  of the loop over the entries, run on the state after the push, and none of them is a
  push onto that worklist, whatever the marking state is. It returns when the heap is
  well-formed and no key lies in the writable shared space.
\<close>

theorem VisitEphemeronHashTable_pushes_table_once:
  "(\<forall>r v'. VisitEphemeronHashTable heap v map_object table = Inr (r, v') \<longrightarrow>
      (\<exists>rest. calls v' = calls v @ Push_ephemeron_hash_tables table # rest \<and>
         (\<forall>t. Push_ephemeron_hash_tables t \<notin> set rest) \<and>
         VisitEphemeronHashTable_entries heap (emit (Push_ephemeron_hash_tables table) v) table
           [0..<Capacity heap table] = Inr v')) \<and>
   (heap_ok heap \<and> (\<forall>i < Capacity heap table. \<not> InWritableSharedSpace heap (KeyAt heap table i))
      \<longrightarrow> (\<exists>r v'. VisitEphemeronHashTable heap v map_object table = Inr (r, v')))"
proof (intro conjI allI impI)
  fix r v'
  assume "VisitEphemeronHashTable heap v map_object table = Inr (r, v')"
  then have run: "VisitEphemeronHashTable_entries heap (emit (Push_ephemeron_hash_tables table) v)
      table [0..<Capacity heap table] = Inr v'"
    by (auto simp: VisitEphemeronHashTable_def Let_def split: sum.splits)
  from VisitEphemeronHashTable_entries_calls [OF run] obtain new where
    "calls v' = calls (emit (Push_ephemeron_hash_tables table) v) @ new"
    "\<forall>t. Push_ephemeron_hash_tables t \<notin> set new"
    by blast
  with run show "\<exists>rest. calls v' = calls v @ Push_ephemeron_hash_tables table # rest \<and>
         (\<forall>t. Push_ephemeron_hash_tables t \<notin> set rest) \<and>
         VisitEphemeronHashTable_entries heap (emit (Push_ephemeron_hash_tables table) v) table
           [0..<Capacity heap table] = Inr v'"
    by simp
next
  assume a: "heap_ok heap \<and>
    (\<forall>i < Capacity heap table. \<not> InWritableSharedSpace heap (KeyAt heap table i))"
  have "\<exists>v'. VisitEphemeronHashTable_entries heap v0 table entries = Inr v'"
    if "\<forall>i \<in> set entries. \<not> InWritableSharedSpace heap (KeyAt heap table i)" for entries v0
    using that
  proof (induction entries arbitrary: v0)
    case Nil
    then show ?case by simp
  next
    case (Cons i entries)
    then have ns: "\<not> InWritableSharedSpace heap (KeyAt heap table i)"
      by simp
    have "\<exists>v1. VisitEphemeronHashTable_entry heap v0 table i = Inr v1"
    proof (cases "InReadOnlySpace heap (KeyAt heap table i) \<or>
        IsMarked heap (marking_state v0) (KeyAt heap table i)")
      case True
      from a have "heap_ok heap" ..
      from VisitPointersImpl_slot_returns [OF this] show ?thesis
        unfolding VisitEphemeronHashTable_entry_live_key [OF True ns] VisitPointer_single .
    next
      case False
      show ?thesis
        unfolding VisitEphemeronHashTable_entry_dead_key [OF False ns] by simp
    qed
    then obtain v1 where "VisitEphemeronHashTable_entry heap v0 table i = Inr v1" ..
    moreover from Cons have "\<exists>v'. VisitEphemeronHashTable_entries heap v1 table entries = Inr v'"
      by simp
    ultimately show ?case
      by auto
  qed
  from this [of "[0..<Capacity heap table]" "emit (Push_ephemeron_hash_tables table) v"] a
  show "\<exists>r v'. VisitEphemeronHashTable heap v map_object table = Inr (r, v')"
    by (auto simp: VisitEphemeronHashTable_def Let_def)
qed

theorem VisitEphemeronHashTable_pushes_table_once_witness:
  "heap_ok example_heap \<and>
   map_sum id (\<lambda>(r, v'). (r, marking_state v', take 4 (calls v')))
     (VisitEphemeronHashTable example_heap (fresh_Visitor\<lparr>marking_state := [2000]\<rparr>) 500 3000) =
   Inr (64, [2024, 2008, 2000],
     [Push_ephemeron_hash_tables 3000,
      SynchronizePageAccess 2000, RecordSlot 3000 3016 2000,
      AddWeakReferenceForReferenceSummarizer 3000 2000]) \<and>
   (\<exists>r v' rest. VisitEphemeronHashTable example_heap (fresh_Visitor\<lparr>marking_state := [2000]\<rparr>)
        500 3000 = Inr (r, v') \<and>
      calls v' = Push_ephemeron_hash_tables 3000 # rest \<and>
      Push_ephemeron_hash_tables 3000 \<notin> set rest)"
proof -
  from example_VisitEphemeronHashTable obtain r v' where
    run: "VisitEphemeronHashTable example_heap (fresh_Visitor\<lparr>marking_state := [2000]\<rparr>) 500 3000
      = Inr (r, v')"
    by (cases "VisitEphemeronHashTable example_heap (fresh_Visitor\<lparr>marking_state := [2000]\<rparr>)
      500 3000") auto
  from VisitEphemeronHashTable_pushes_table_once [of example_heap
      "fresh_Visitor\<lparr>marking_state := [2000]\<rparr>" 500 3000] run
  obtain rest where "calls v' = Push_ephemeron_hash_tables 3000 # rest"
    "Push_ephemeron_hash_tables 3000 \<notin> set rest"
    by (auto simp: fresh_Visitor_def)
  with run example_VisitEphemeronHashTable example_heap_ok show ?thesis
    by auto
qed

text \<open>
  Claim C7, amended. For an entry of an ephemeron hash table, \<open>VisitEphemeronHashTable\<close>
  first records the key slot. If the key is read-only or marked, it visits the value slot
  as a strong pointer: it loads that slot, and a value that should be marked ends up
  marked, with its slot recorded, and pushed onto the marking worklist if it was not
  marked before. Otherwise it leaves the marking state alone; when the value is a heap
  object it records the value slot and, if the value should be marked and is unmarked,
  pushes the pair of key and value onto the discovered-ephemerons worklist; when the value
  is not a heap object it does nothing more.
\<close>

theorem VisitEphemeronHashTable_entry_key_and_value:
  fixes heap :: "'ms Heap"
  assumes run: "VisitEphemeronHashTable_entry heap v table i = Inr v'"
  shows "\<exists>new. calls v' = calls v @ key_calls heap table i @ new \<and>
     (if InReadOnlySpace heap (KeyAt heap table i) \<or>
         IsMarked heap (marking_state v) (KeyAt heap table i)
      then VisitPointer heap (v\<lparr>calls := calls v @ key_calls heap table i\<rparr>) table
             (value_slot_of heap table i) = Inr v' \<and>
           loads new = [value_slot_of heap table i] \<and>
           (marking_ok heap \<longrightarrow>
              (\<forall>val. Relaxed_Load heap (value_slot_of heap table i) = StrongRef val \<and>
                     ShouldMarkObject heap val \<longrightarrow>
                 IsMarked heap (marking_state v') val \<and>
                 RecordSlot table (value_slot_of heap table i) val \<in> set new \<and>
                 pushes val new = (if IsMarked heap (marking_state v) val then 0 else 1)))
      else marking_state v' = marking_state v \<and>
           new = (case ValueAt heap table i of
                    StrongRef val \<Rightarrow>
                      [SynchronizePageAccess val,
                       RecordSlot table (value_slot_of heap table i) val,
                       AddWeakReferenceForReferenceSummarizer table val] @
                      (if ShouldMarkObject heap val \<and> IsUnmarked heap (marking_state v) val
                       then [Push_discovered_ephemerons (KeyAt heap table i) val] else [])
                  | other \<Rightarrow> []))"
proof -
  let ?key = "KeyAt heap table i" and ?vs = "value_slot_of heap table i"
  let ?v3 = "v\<lparr>calls := calls v @ key_calls heap table i\<rparr>"
  from run have ns: "\<not> InWritableSharedSpace heap ?key"
    using VisitEphemeronHashTable_entry_shared_key [of heap table i v] by auto
  show ?thesis
  proof (cases "InReadOnlySpace heap ?key \<or> IsMarked heap (marking_state v) ?key")
    case False
    from run have "v' = v\<lparr>calls := calls v @ key_calls heap table i @
       (case ValueAt heap table i of
          StrongRef val \<Rightarrow>
            [SynchronizePageAccess val, RecordSlot table ?vs val,
             AddWeakReferenceForReferenceSummarizer table val] @
            (if ShouldMarkObject heap val \<and> IsUnmarked heap (marking_state v) val
             then [Push_discovered_ephemerons ?key val] else [])
        | other \<Rightarrow> [])\<rparr>"
      unfolding VisitEphemeronHashTable_entry_dead_key [OF False ns] by simp
    with False show ?thesis
      by simp
  next
    case True
    from run have vp: "VisitPointer heap ?v3 table ?vs = Inr v'"
      unfolding VisitEphemeronHashTable_entry_live_key [OF True ns] .
    then have slot: "VisitPointersImpl_slot heap False ?v3 table ?vs = Inr v'"
      unfolding VisitPointer_single .
    from VisitPointersImpl_slot_step [OF slot] obtain new where
      new: "calls v' = calls ?v3 @ new" and ld: "loads new = [?vs]"
      unfolding pointer_step_def by blast
    have strong: "IsMarked heap (marking_state v') val \<and> RecordSlot table ?vs val \<in> set new \<and>
        pushes val new = (if IsMarked heap (marking_state v) val then 0 else 1)"
      if ok: "marking_ok heap" and rl: "Relaxed_Load heap ?vs = StrongRef val"
        and sm: "ShouldMarkObject heap val" for val
    proof -
      from slot rl have p: "ProcessStrongHeapObject heap (emit (Load ?vs) ?v3) table ?vs val = Inr v'"
        by (simp add: VisitPointersImpl_slot_def Let_def)
      note pc = ProcessStrongHeapObject_calls [OF p sm]
      from pc(2) new have eq: "new = Load ?vs #
          [SynchronizePageAccess val, SynchronizePageAccess val,
           AddStrongReferenceForReferenceSummarizer table val] @
          (if fst (TryMark heap (marking_state v) val)
           then Push_marking_worklist val #
                (if retaining_path_mode heap = kEnabled then [AddRetainer table val] else [])
           else []) @ [RecordSlot table ?vs val]"
        by simp
      from ok have tm: "fst (TryMark heap (marking_state v) val) \<longleftrightarrow>
          \<not> IsMarked heap (marking_state v) val"
        and now: "IsMarked heap (snd (TryMark heap (marking_state v) val)) val"
        unfolding marking_ok_def by blast+
      from now pc(1) have "IsMarked heap (marking_state v') val"
        by simp
      moreover have "RecordSlot table ?vs val \<in> set new"
        unfolding eq by simp
      moreover have "pushes val new = (if IsMarked heap (marking_state v) val then 0 else 1)"
        unfolding eq using tm by simp
      ultimately show ?thesis
        by blast
    qed
    show ?thesis
      by (rule exI [of _ new]) (use True vp new ld strong in auto)
  qed
qed

theorem VisitEphemeronHashTable_entry_key_and_value_witness:
  "map_sum id (\<lambda>v'. (marking_state v', calls v'))
     (VisitEphemeronHashTable_entry example_heap (fresh_Visitor\<lparr>marking_state := [2000]\<rparr>)
        3000 0) =
   Inr ([2008, 2000],
     [SynchronizePageAccess 2000, RecordSlot 3000 3016 2000,
      AddWeakReferenceForReferenceSummarizer 3000 2000,
      Load 3024, SynchronizePageAccess 2008, SynchronizePageAccess 2008,
      AddStrongReferenceForReferenceSummarizer 3000 2008, Push_marking_worklist 2008,
      RecordSlot 3000 3024 2008]) \<and>
   (\<exists>v' new. VisitEphemeronHashTable_entry example_heap
        (fresh_Visitor\<lparr>marking_state := [2000]\<rparr>) 3000 0 = Inr v' \<and>
      calls v' = key_calls example_heap 3000 0 @ new \<and> loads new = [3024])"
proof -
  have ev: "map_sum id (\<lambda>v'. (marking_state v', calls v'))
     (VisitEphemeronHashTable_entry example_heap (fresh_Visitor\<lparr>marking_state := [2000]\<rparr>)
        3000 0) =
   Inr ([2008, 2000],
     [SynchronizePageAccess 2000, RecordSlot 3000 3016 2000,
      AddWeakReferenceForReferenceSummarizer 3000 2000,
      Load 3024, SynchronizePageAccess 2008, SynchronizePageAccess 2008,
      AddStrongReferenceForReferenceSummarizer 3000 2008, Push_marking_worklist 2008,
      RecordSlot 3000 3024 2008])"
    by code_simp
  then obtain v' where run: "VisitEphemeronHashTable_entry example_heap
        (fresh_Visitor\<lparr>marking_state := [2000]\<rparr>) 3000 0 = Inr v'"
    by (cases "VisitEphemeronHashTable_entry example_heap
        (fresh_Visitor\<lparr>marking_state := [2000]\<rparr>) 3000 0") auto
  have vs: "value_slot_of example_heap 3000 0 = 3024"
    by code_simp
  have live: "IsMarked example_heap (marking_state (fresh_Visitor\<lparr>marking_state := [2000]\<rparr>))
      (KeyAt example_heap 3000 0)"
    by (simp add: example_heap_def)
  from VisitEphemeronHashTable_entry_key_and_value [OF run] live vs
  obtain new where "calls v' = key_calls example_heap 3000 0 @ new" "loads new = [3024]"
    by (auto simp: fresh_Visitor_def)
  with ev run show ?thesis
    by blast
qed

text \<open>
  Claim C7 as stated fails where the key is unmarked and the value is a small integer:
  entry 2 of the example table has key 2016 and value \<open>Smi 5\<close> in slot 3056, and only its
  key slot 3048 is recorded.
\<close>

theorem VisitEphemeronHashTable_entry_smi_value_counterexample:
  "KeyAt example_heap 3000 2 = 2016 \<and>
   \<not> InReadOnlySpace example_heap 2016 \<and>
   \<not> IsMarked example_heap (marking_state fresh_Visitor) 2016 \<and>
   ValueAt example_heap 3000 2 = Smi 5 \<and>
   key_slot_of example_heap 3000 2 = 3048 \<and>
   value_slot_of example_heap 3000 2 = 3056 \<and>
   map_sum id (\<lambda>v'. (marking_state v', calls v'))
     (VisitEphemeronHashTable_entry example_heap fresh_Visitor 3000 2) =
   Inr ([], [SynchronizePageAccess 2016, RecordSlot 3000 3048 2016,
             AddWeakReferenceForReferenceSummarizer 3000 2016])"
  by code_simp

text \<open>
  Claim C10. \<open>VisitJSWeakRef\<close> passes on a failure of the subclass visit; when the subclass
  visit returns size 0 it returns 0 with the state the subclass visit left; and in every
  case it returns the size of the subclass visit, leaves the marking state alone, and
  makes calls of its own exactly when the size is not 0 and the target is a heap object:
  it records the target slot when the target is read-only or marked and pushes the weak
  reference onto the js-weak-refs worklist otherwise.
\<close>

theorem VisitJSWeakRef_zero_size_skips_target:
  fixes heap :: "'ms Heap"
  shows "(\<forall>e. VisitJSObjectSubclass heap v map_object weak_ref = Inl e \<longrightarrow>
            VisitJSWeakRef heap v map_object weak_ref = Inl e) \<and>
         (\<forall>v1. VisitJSObjectSubclass heap v map_object weak_ref = Inr (0, v1) \<longrightarrow>
            VisitJSWeakRef heap v map_object weak_ref = Inr (0, v1)) \<and>
         (\<forall>size' v1. VisitJSObjectSubclass heap v map_object weak_ref = Inr (size', v1) \<longrightarrow>
            (\<exists>v' new. VisitJSWeakRef heap v map_object weak_ref = Inr (size', v') \<and>
               marking_state v' = marking_state v1 \<and> calls v' = calls v1 @ new \<and>
               (new \<noteq> [] \<longleftrightarrow> size' \<noteq> 0 \<and> IsHeapObject (target heap weak_ref)) \<and>
               (\<forall>t. RecordSlot weak_ref (RawField weak_ref (JSWeakRef_kTargetOffset heap)) t \<in> set new
                  \<longleftrightarrow> size' \<noteq> 0 \<and> target heap weak_ref = StrongRef t \<and>
                      (InReadOnlySpace heap t \<or> IsMarked heap (marking_state v1) t)) \<and>
               (Push_js_weak_refs weak_ref \<in> set new
                  \<longleftrightarrow> size' \<noteq> 0 \<and> (\<exists>t. target heap weak_ref = StrongRef t \<and>
                      \<not> (InReadOnlySpace heap t \<or> IsMarked heap (marking_state v1) t)))))"
proof (intro conjI allI impI)
  fix e
  assume "VisitJSObjectSubclass heap v map_object weak_ref = Inl e"
  then show "VisitJSWeakRef heap v map_object weak_ref = Inl e"
    by (simp add: VisitJSWeakRef_def)
next
  fix v1
  assume "VisitJSObjectSubclass heap v map_object weak_ref = Inr (0, v1)"
  then show "VisitJSWeakRef heap v map_object weak_ref = Inr (0, v1)"
    by (simp add: VisitJSWeakRef_def)
next
  fix size' v1
  assume sub: "VisitJSObjectSubclass heap v map_object weak_ref = Inr (size', v1)"
  let ?P = "\<lambda>v' new. VisitJSWeakRef heap v map_object weak_ref = Inr (size', v') \<and>
               marking_state v' = marking_state v1 \<and> calls v' = calls v1 @ new \<and>
               (new \<noteq> [] \<longleftrightarrow> size' \<noteq> 0 \<and> IsHeapObject (target heap weak_ref)) \<and>
               (\<forall>t. RecordSlot weak_ref (RawField weak_ref (JSWeakRef_kTargetOffset heap)) t \<in> set new
                  \<longleftrightarrow> size' \<noteq> 0 \<and> target heap weak_ref = StrongRef t \<and>
                      (InReadOnlySpace heap t \<or> IsMarked heap (marking_state v1) t)) \<and>
               (Push_js_weak_refs weak_ref \<in> set new
                  \<longleftrightarrow> size' \<noteq> 0 \<and> (\<exists>t. target heap weak_ref = StrongRef t \<and>
                      \<not> (InReadOnlySpace heap t \<or> IsMarked heap (marking_state v1) t)))"
  show "\<exists>v' new. ?P v' new"
  proof (cases "size' = 0")
    case True
    with sub have "?P v1 []"
      by (simp add: VisitJSWeakRef_def)
    then show ?thesis by blast
  next
    case nz: False
    show ?thesis
    proof (cases "target heap weak_ref")
      case (StrongRef t)
      show ?thesis
      proof (cases "InReadOnlySpace heap t \<or> IsMarked heap (marking_state v1) t")
        case True
        with sub nz StrongRef have "?P
            (emit (RecordSlot weak_ref (RawField weak_ref (JSWeakRef_kTargetOffset heap)) t)
               (emit (SynchronizePageAccess t) v1))
            [SynchronizePageAccess t,
             RecordSlot weak_ref (RawField weak_ref (JSWeakRef_kTargetOffset heap)) t]"
          by (auto simp: VisitJSWeakRef_def Let_def)
        then show ?thesis by blast
      next
        case False
        with sub nz StrongRef have "?P
            (emit (AddWeakReferenceForReferenceSummarizer weak_ref t)
               (emit (Push_js_weak_refs weak_ref) (emit (SynchronizePageAccess t) v1)))
            [SynchronizePageAccess t, Push_js_weak_refs weak_ref,
             AddWeakReferenceForReferenceSummarizer weak_ref t]"
          by (auto simp: VisitJSWeakRef_def Let_def)
        then show ?thesis by blast
      qed
    next
      case (Smi n)
      with sub nz have "?P v1 []"
        by (simp add: VisitJSWeakRef_def)
      then show ?thesis by blast
    next
      case (WeakRef t)
      with sub nz have "?P v1 []"
        by (simp add: VisitJSWeakRef_def)
      then show ?thesis by blast
    next
      case ClearedWeak
      with sub nz have "?P v1 []"
        by (simp add: VisitJSWeakRef_def)
      then show ?thesis by blast
    qed
  qed
qed

theorem VisitJSWeakRef_zero_size_skips_target_witness:
  "VisitJSObjectSubclass (example_heap\<lparr>VisitJSObjectSubclass := (\<lambda>v m object. Inr (0, v))\<rparr>)
     fresh_Visitor 500 5000 = Inr (0, fresh_Visitor) \<and>
   VisitJSWeakRef (example_heap\<lparr>VisitJSObjectSubclass := (\<lambda>v m object. Inr (0, v))\<rparr>)
     fresh_Visitor 500 5000 = Inr (0, fresh_Visitor) \<and>
   map_sum id (\<lambda>(r, v'). (r, calls v')) (VisitJSWeakRef example_heap fresh_Visitor 500 5000) =
     Inr (32, [SynchronizePageAccess 2032, Push_js_weak_refs 5000,
               AddWeakReferenceForReferenceSummarizer 5000 2032])"
proof -
  let ?heap = "example_heap\<lparr>VisitJSObjectSubclass := (\<lambda>v m object. Inr (0, v))\<rparr>"
  have sub: "VisitJSObjectSubclass ?heap fresh_Visitor 500 5000 = Inr (0, fresh_Visitor)"
    by simp
  from VisitJSWeakRef_zero_size_skips_target [of ?heap fresh_Visitor 500 5000] sub
  have "VisitJSWeakRef ?heap fresh_Visitor 500 5000 = Inr (0, fresh_Visitor)"
    by blast
  moreover have "map_sum id (\<lambda>(r, v'). (r, calls v'))
      (VisitJSWeakRef example_heap fresh_Visitor 500 5000) =
     Inr (32, [SynchronizePageAccess 2032, Push_js_weak_refs 5000,
               AddWeakReferenceForReferenceSummarizer 5000 2032])"
    by code_simp
  ultimately show ?thesis
    using sub by simp
qed




text \<open>
  Claim C6, amended. An increment of \<open>VisitFixedArrayWithProgressBar\<close> on a marked array
  of size \<open>S\<close> whose cursor is at most \<open>S\<close> starts at the cursor, or at the offset of the
  first element when the cursor is 0 (then the map pointer is visited first), and ends at
  the minimum of \<open>S\<close> and the start plus the chunk size. It loads exactly the slots of
  that range; when the range is not empty the cursor becomes its end, by a
  compare-and-swap from the cursor that was read, and the array is pushed back exactly
  when the new cursor is below \<open>S\<close>; the cursor never decreases and never exceeds \<open>S\<close>.
  When another thread has stored a different cursor in between, nothing is stored and the
  \<open>CHECK\<close> fails. Repeated for as long as the array is pushed back, the increments end
  and load every slot from the start of the first increment up to \<open>S\<close> exactly once, in
  order.
\<close>

theorem VisitFixedArrayWithProgressBar_increment:
  fixes heap :: "'ms Heap"
  assumes ok: "heap_ok heap" and mk: "marking_ok heap"
    and a: "array_ok heap v map_object object progress_bar"
  shows "(other_write progress_bar = None \<or>
          other_write progress_bar = Some (bar_value progress_bar) \<longrightarrow>
            (\<exists>progress_bar' v' new.
               VisitFixedArrayWithProgressBar heap v map_object object progress_bar =
                 Inr (increment_end heap map_object object progress_bar -
                        increment_start heap progress_bar, progress_bar', v') \<and>
               calls v' = calls v @ new \<and>
               loads new = slot_range heap (RawField object (increment_start heap progress_bar))
                   (RawField object (increment_end heap map_object object progress_bar)) \<and>
               progress_bar' =
                 (if increment_start heap progress_bar <
                     increment_end heap map_object object progress_bar
                  then \<lparr>bar_value = size_t_of_int
                            (increment_end heap map_object object progress_bar),
                        other_write = None\<rparr>
                  else progress_bar) \<and>
               int_of_size_t (Value progress_bar) \<le> int_of_size_t (Value progress_bar') \<and>
               int_of_size_t (Value progress_bar') \<le> FixedArray_SizeOf heap map_object object \<and>
               pushes object new =
                 (if increment_start heap progress_bar <
                       increment_end heap map_object object progress_bar \<and>
                     int_of_size_t (Value progress_bar') <
                       FixedArray_SizeOf heap map_object object
                  then 1 else 0) \<and>
               (int_of_size_t (Value progress_bar) = 0 \<longrightarrow>
                  (\<exists>v1 rest. VisitMapPointer heap v object = Inr v1 \<and>
                     calls v' = calls v1 @ rest)))) \<and>
         (\<forall>w. other_write progress_bar = Some w \<and> w \<noteq> bar_value progress_bar \<and>
              increment_start heap progress_bar <
                increment_end heap map_object object progress_bar \<longrightarrow>
            VisitFixedArrayWithProgressBar heap v map_object object progress_bar =
              Inl CheckFailed) \<and>
         (other_write progress_bar = None \<longrightarrow>
            (\<exists>progress_bar' v' new.
               VisitIncrements heap v map_object object progress_bar =
                 Some (Inr (progress_bar', v')) \<and>
               calls v' = calls v @ new \<and>
               loads new = slot_range heap (RawField object (increment_start heap progress_bar))
                   (RawField object (FixedArray_SizeOf heap map_object object)) \<and>
               distinct (loads new) \<and>
               (increment_start heap progress_bar < FixedArray_SizeOf heap map_object object \<longrightarrow>
                  int_of_size_t (Value progress_bar') =
                    FixedArray_SizeOf heap map_object object)))"
proof (intro conjI impI allI)
  let ?S = "FixedArray_SizeOf heap map_object object"
  let ?start = "increment_start heap progress_bar"
  let ?stop = "increment_end heap map_object object progress_bar"
  let ?pb1 = "\<lparr>bar_value = size_t_of_int ?stop, other_write = None\<rparr>"
  let ?pb' = "if ?start < ?stop then ?pb1 else progress_bar"
  note b = increment_bounds [OF a]
  assume ni: "other_write progress_bar = None \<or>
      other_write progress_bar = Some (bar_value progress_bar)"
  note cas = TrySetNewValue_succeeds [OF ni]
  obtain v1 new1 where
    run0: "VisitFixedArrayWithProgressBar heap v map_object object progress_bar =
       (if ?start < ?stop \<and> \<not> fst (TrySetNewValue progress_bar (Value progress_bar)
                    (size_t_of_int ?stop))
        then Inl CheckFailed
        else Inr (?stop - ?start,
                  if ?start < ?stop
                  then snd (TrySetNewValue progress_bar (Value progress_bar) (size_t_of_int ?stop))
                  else progress_bar, v1))"
    and c1: "calls v1 = calls v @ new1"
    and l1: "loads new1 = slot_range heap (RawField object ?start) (RawField object ?stop)"
    and p1: "pushes object new1 = (if ?start < ?stop \<and> ?stop < ?S then 1 else 0)"
    and m1: "IsMarked heap (marking_state v1) object"
    and mp: "int_of_size_t (Value progress_bar) = 0 \<longrightarrow>
        (\<exists>v0 rest. VisitMapPointer heap v object = Inr v0 \<and> calls v1 = calls v0 @ rest)"
    by (rule VisitFixedArrayWithProgressBar_run [OF ok mk a])
  from run0 have run: "VisitFixedArrayWithProgressBar heap v map_object object progress_bar =
       Inr (?stop - ?start, ?pb', v1)"
    unfolding cas by simp
  have cur: "int_of_size_t (Value ?pb') = (if ?start < ?stop then ?stop else
      int_of_size_t (Value progress_bar))"
    using b(2,5) by (simp add: Value_def int_of_size_t_of_int)
  from a have cS: "int_of_size_t (Value progress_bar) \<le> ?S"
    by (simp add: array_ok_def)
  from cur b(1,4) cS have mono: "int_of_size_t (Value progress_bar) \<le> int_of_size_t (Value ?pb')"
    and bound: "int_of_size_t (Value ?pb') \<le> ?S"
    by (simp_all split: if_splits)
  from p1 cur have push: "pushes object new1 =
      (if ?start < ?stop \<and> int_of_size_t (Value ?pb') < ?S then 1 else 0)"
    by simp
  from run c1 l1 mono bound push mp
  show "\<exists>progress_bar' v' new.
      VisitFixedArrayWithProgressBar heap v map_object object progress_bar =
        Inr (?stop - ?start, progress_bar', v') \<and>
      calls v' = calls v @ new \<and>
      loads new = slot_range heap (RawField object ?start) (RawField object ?stop) \<and>
      progress_bar' = ?pb' \<and>
      int_of_size_t (Value progress_bar) \<le> int_of_size_t (Value progress_bar') \<and>
      int_of_size_t (Value progress_bar') \<le> ?S \<and>
      pushes object new =
        (if ?start < ?stop \<and> int_of_size_t (Value progress_bar') < ?S then 1 else 0) \<and>
      (int_of_size_t (Value progress_bar) = 0 \<longrightarrow>
         (\<exists>v1 rest. VisitMapPointer heap v object = Inr v1 \<and> calls v' = calls v1 @ rest))"
    by (intro exI [of _ ?pb'] exI [of _ v1] exI [of _ new1]) simp
next
  fix w
  assume w: "other_write progress_bar = Some w \<and> w \<noteq> bar_value progress_bar \<and>
      increment_start heap progress_bar < increment_end heap map_object object progress_bar"
  then have "TrySetNewValue progress_bar (Value progress_bar) x =
      (False, \<lparr>bar_value = w, other_write = None\<rparr>)" for x
    by (intro TrySetNewValue_fails) simp_all
  moreover obtain v1 where
    "VisitFixedArrayWithProgressBar heap v map_object object progress_bar =
       (if increment_start heap progress_bar < increment_end heap map_object object progress_bar \<and>
           \<not> fst (TrySetNewValue progress_bar (Value progress_bar)
                    (size_t_of_int (increment_end heap map_object object progress_bar)))
        then Inl CheckFailed
        else Inr (increment_end heap map_object object progress_bar -
                    increment_start heap progress_bar,
                  if increment_start heap progress_bar <
                     increment_end heap map_object object progress_bar
                  then snd (TrySetNewValue progress_bar (Value progress_bar)
                         (size_t_of_int (increment_end heap map_object object progress_bar)))
                  else progress_bar, v1))"
    by (rule VisitFixedArrayWithProgressBar_run [OF ok mk a]) blast
  ultimately
  show "VisitFixedArrayWithProgressBar heap v map_object object progress_bar = Inl CheckFailed"
    using w by simp
next
  assume "other_write progress_bar = None"
  from VisitIncrements_run [OF ok mk a this] obtain progress_bar' v' new where
    r: "VisitIncrements heap v map_object object progress_bar = Some (Inr (progress_bar', v'))"
      "calls v' = calls v @ new"
      "loads new = slot_range heap (RawField object (increment_start heap progress_bar))
          (RawField object (FixedArray_SizeOf heap map_object object))"
      "increment_start heap progress_bar < FixedArray_SizeOf heap map_object object \<longrightarrow>
         int_of_size_t (Value progress_bar') = FixedArray_SizeOf heap map_object object"
    by blast
  from r(3) have "distinct (loads new)"
    by (simp add: slot_range_distinct)
  with r show "\<exists>progress_bar' v' new.
      VisitIncrements heap v map_object object progress_bar = Some (Inr (progress_bar', v')) \<and>
      calls v' = calls v @ new \<and>
      loads new = slot_range heap (RawField object (increment_start heap progress_bar))
          (RawField object (FixedArray_SizeOf heap map_object object)) \<and>
      distinct (loads new) \<and>
      (increment_start heap progress_bar < FixedArray_SizeOf heap map_object object \<longrightarrow>
         int_of_size_t (Value progress_bar') = FixedArray_SizeOf heap map_object object)"
    by blast
qed

theorem VisitFixedArrayWithProgressBar_increment_witness:
  "heap_ok example_heap \<and> marking_ok example_heap \<and>
   array_ok example_heap (fresh_Visitor\<lparr>marking_state := [1000]\<rparr>) 500 1000
     \<lparr>bar_value = 0, other_write = None\<rparr> \<and>
   map_sum id (\<lambda>(r, progress_bar', v').
       (r, progress_bar', loads (calls v'), pushes 1000 (calls v')))
     (VisitFixedArrayWithProgressBar example_heap (fresh_Visitor\<lparr>marking_state := [1000]\<rparr>)
        500 1000 \<lparr>bar_value = 0, other_write = None\<rparr>) =
   Inr (16, \<lparr>bar_value = 32, other_write = None\<rparr>, [1016, 1024], 1) \<and>
   VisitFixedArrayWithProgressBar example_heap (fresh_Visitor\<lparr>marking_state := [1000]\<rparr>)
     500 1000 \<lparr>bar_value = 0, other_write = Some 32\<rparr> = Inl CheckFailed \<and>
   map_option (map_sum id (\<lambda>(progress_bar', v'). (progress_bar', loads (calls v'))))
     (VisitIncrements example_heap (fresh_Visitor\<lparr>marking_state := [1000]\<rparr>) 500 1000
        \<lparr>bar_value = 0, other_write = None\<rparr>) =
   Some (Inr (\<lparr>bar_value = 48, other_write = None\<rparr>, [1016, 1024, 1032, 1040])) \<and>
   (\<exists>progress_bar' v'.
      VisitIncrements example_heap (fresh_Visitor\<lparr>marking_state := [1000]\<rparr>) 500 1000
        \<lparr>bar_value = 0, other_write = None\<rparr> = Some (Inr (progress_bar', v')) \<and>
      distinct (loads (calls v')) \<and> int_of_size_t (Value progress_bar') = 48)"
proof -
  have s: "increment_start example_heap \<lparr>bar_value = 0, other_write = None\<rparr> = 16"
    "FixedArray_SizeOf example_heap 500 1000 = 48"
    by (simp_all add: increment_start_def example_heap_def Value_def int_of_size_t_def)
  from VisitFixedArrayWithProgressBar_increment [OF example_heap_ok example_marking_ok
      example_array_ok]
  obtain progress_bar' v' where
    "VisitIncrements example_heap (fresh_Visitor\<lparr>marking_state := [1000]\<rparr>) 500 1000
        \<lparr>bar_value = 0, other_write = None\<rparr> = Some (Inr (progress_bar', v'))"
    "distinct (loads (calls v'))" "int_of_size_t (Value progress_bar') = 48"
    unfolding s by (auto simp: fresh_Visitor_def)
  with example_heap_ok example_marking_ok example_array_ok
    example_VisitFixedArrayWithProgressBar example_VisitIncrements
    example_VisitFixedArrayWithProgressBar_interference
  show ?thesis
    by blast
qed

text \<open>
  Claim C6 as stated fails at the cursor 0: for the example array of size 48 with chunk
  size 16 the range from the cursor to the cursor plus the chunk size holds the slots 1000
  and 1008, but the first increment loads the slots 1016 and 1024, from the offset 16 of
  the first element on, and sets the cursor to 32; all increments together load the slots
  of the offsets from 16 to 48, not from 0 to 48.
\<close>

theorem VisitFixedArrayWithProgressBar_header_counterexample:
  "int_of_size_t (Value \<lparr>bar_value = 0, other_write = None\<rparr>) = 0 \<and>
   FixedArray_SizeOf example_heap 500 1000 = 48 \<and>
   kMaxRegularHeapObjectSize example_heap = 16 \<and>
   slot_range example_heap (RawField 1000 0) (RawField 1000 (min 48 (0 + 16))) = [1000, 1008] \<and>
   map_sum id (\<lambda>(r, progress_bar', v'). (r, progress_bar', loads (calls v')))
     (VisitFixedArrayWithProgressBar example_heap (fresh_Visitor\<lparr>marking_state := [1000]\<rparr>)
        500 1000 \<lparr>bar_value = 0, other_write = None\<rparr>) =
   Inr (16, \<lparr>bar_value = 32, other_write = None\<rparr>, [1016, 1024]) \<and>
   slot_range example_heap (RawField 1000 0) (RawField 1000 48) =
     [1000, 1008, 1016, 1024, 1032, 1040] \<and>
   map_option (map_sum id (\<lambda>(progress_bar', v'). (progress_bar', loads (calls v'))))
     (VisitIncrements example_heap (fresh_Visitor\<lparr>marking_state := [1000]\<rparr>) 500 1000
        \<lparr>bar_value = 0, other_write = None\<rparr>) =
   Some (Inr (\<lparr>bar_value = 48, other_write = None\<rparr>, [1016, 1024, 1032, 1040]))"
  by code_simp

end
